theory Spec2Isabelle
  imports
    Complex_Main
    "HOL-Library.Product_Lexorder"
    "HOL-Library.List_Lexorder"
    "HOL-Library.Char_ord"
    "HOL-Library.Log_Nat"
begin

section \<open>Ordered maps\<close>

text \<open>
  A \<^verbatim>\<open>std::map\<close> is modelled by the list of its entries in iteration order, which is
  the ascending order of the keys. \<^verbatim>\<open>find\<close> is \<^const>\<open>map_of\<close>, \<^verbatim>\<open>m[k] = v\<close> is
  \<open>map_assign\<close>, \<^verbatim>\<open>erase\<close> is \<open>map_erase\<close>, and a range-based \<^verbatim>\<open>for\<close> loop walks the list
  from its head.
\<close>

fun map_assign :: "'k::linorder \<Rightarrow> 'v \<Rightarrow> ('k \<times> 'v) list \<Rightarrow> ('k \<times> 'v) list" where
  "map_assign k v [] = [(k, v)]"
| "map_assign k v (e # es) =
     (if fst e < k then e # map_assign k v es
      else if fst e = k then (k, v) # es
      else (k, v) # e # es)"

definition map_erase :: "'k \<Rightarrow> ('k \<times> 'v) list \<Rightarrow> ('k \<times> 'v) list" where
  "map_erase k m = filter (\<lambda>e. fst e \<noteq> k) m"

definition map_keys_ok :: "('k::linorder \<times> 'v) list \<Rightarrow> bool" where
  "map_keys_ok m = sorted_wrt (<) (map fst m)"

section \<open>PatternTable\<close>

text \<open>
  The class \<^verbatim>\<open>PatternTable\<close>. Page identifiers and counters are C++ \<^verbatim>\<open>int\<close>; they are
  modelled by unbounded integers, that is, within the range where the signed arithmetic
  of the source does not overflow (overflow is undefined behaviour there).
  A \<^verbatim>\<open>double\<close> is modelled by the rational number it stands for. The quotients
  that give the probabilities and the comparisons are exact in the model; the product
  in \<^verbatim>\<open>decay\<close>, whose result is cast to \<^verbatim>\<open>int\<close>, is rounded as the machine rounds it
  (see \<open>double_mul\<close> below).
\<close>

type_synonym PageTransition = "int \<times> int"

record PatternTable =
  transitions :: "(PageTransition \<times> int) list"
  predictions :: "(int \<times> int list) list"
  totalTransitions :: int
  confidenceThreshold :: rat
  maxPredictions :: int
  enableLearning :: bool
  totalUpdates :: int
  predictionRequests :: int
  successfulPredictions :: int

definition PatternTable_init :: "rat \<Rightarrow> int \<Rightarrow> PatternTable" where
  "PatternTable_init threshold maxPred =
     \<lparr>transitions = [], predictions = [], totalTransitions = 0,
      confidenceThreshold = threshold, maxPredictions = maxPred, enableLearning = True,
      totalUpdates = 0, predictionRequests = 0, successfulPredictions = 0\<rparr>"

definition isValidPage :: "int \<Rightarrow> bool" where
  "isValidPage pageId = (pageId \<ge> 0)"

text \<open>\<^verbatim>\<open>transitions[transition]\<close> reads 0 for a key that is not stored yet.\<close>

definition getTransitionCount :: "PatternTable \<Rightarrow> int \<Rightarrow> int \<Rightarrow> int" where
  "getTransitionCount t fromPage toPage =
     (case map_of (transitions t) (fromPage, toPage) of None \<Rightarrow> 0 | Some c \<Rightarrow> c)"

definition recordTransition :: "int \<Rightarrow> int \<Rightarrow> PatternTable \<Rightarrow> PatternTable" where
  "recordTransition fromPage toPage t =
     (if \<not> enableLearning t \<or> \<not> isValidPage fromPage \<or> \<not> isValidPage toPage then t
      else t\<lparr>transitions :=
                map_assign (fromPage, toPage) (getTransitionCount t fromPage toPage + 1)
                  (transitions t),
              totalTransitions := totalTransitions t + 1,
              totalUpdates := totalUpdates t + 1,
              predictions := map_erase fromPage (predictions t)\<rparr>)"

fun recordSequence_loop :: "int list \<Rightarrow> PatternTable \<Rightarrow> PatternTable" where
  "recordSequence_loop (a # b # rest) t = recordSequence_loop (b # rest) (recordTransition a b t)"
| "recordSequence_loop _ t = t"

definition recordSequence :: "int list \<Rightarrow> PatternTable \<Rightarrow> PatternTable" where
  "recordSequence pageSequence t =
     (if \<not> enableLearning t \<or> length pageSequence < 2 then t
      else recordSequence_loop pageSequence t)"

definition updatePattern :: "int \<Rightarrow> int \<Rightarrow> int \<Rightarrow> PatternTable \<Rightarrow> PatternTable" where
  "updatePattern fromPage toPage count t =
     (if \<not> enableLearning t \<or> \<not> isValidPage fromPage \<or> \<not> isValidPage toPage \<or> count \<le> 0
      then t
      else t\<lparr>transitions :=
                map_assign (fromPage, toPage) (getTransitionCount t fromPage toPage + count)
                  (transitions t),
              totalTransitions := totalTransitions t + count,
              totalUpdates := totalUpdates t + 1,
              predictions := map_erase fromPage (predictions t)\<rparr>)"

definition getTotalTransitionsFrom :: "PatternTable \<Rightarrow> int \<Rightarrow> int" where
  "getTotalTransitionsFrom t fromPage =
     fold (\<lambda>entry total. if fst (fst entry) = fromPage then total + snd entry else total)
       (transitions t) 0"

definition getReachablePages :: "PatternTable \<Rightarrow> int \<Rightarrow> int list" where
  "getReachablePages t fromPage =
     fold (\<lambda>entry pages. if fst (fst entry) = fromPage then pages @ [snd (fst entry)] else pages)
       (transitions t) []"

definition getTransitionProbability :: "PatternTable \<Rightarrow> int \<Rightarrow> int \<Rightarrow> rat" where
  "getTransitionProbability t fromPage toPage =
     (if \<not> isValidPage fromPage \<or> \<not> isValidPage toPage then 0
      else case map_of (transitions t) (fromPage, toPage) of
             None \<Rightarrow> 0
           | Some c \<Rightarrow>
               (let totalFromPage = getTotalTransitionsFrom t fromPage
                in if totalFromPage = 0 then 0 else of_int c / of_int totalFromPage))"

text \<open>
  \<^verbatim>\<open>std::sort\<close> with the comparator \<^verbatim>\<open>a.second > b.second\<close>: the result is in descending
  order of the probability. The order of entries of equal probability is not fixed by
  \<^verbatim>\<open>std::sort\<close>; the model keeps them in their order before the sort.
\<close>

definition sort_by_probability :: "(int \<times> rat) list \<Rightarrow> (int \<times> rat) list" where
  "sort_by_probability ps = sort_key (\<lambda>p. - snd p) ps"

definition calculateProbabilities :: "PatternTable \<Rightarrow> int \<Rightarrow> (int \<times> rat) list" where
  "calculateProbabilities t fromPage =
     (let totalFromPage = getTotalTransitionsFrom t fromPage
      in if totalFromPage = 0 then []
         else sort_by_probability
                (fold (\<lambda>entry probabilities.
                         if fst (fst entry) = fromPage
                         then probabilities @
                                [(snd (fst entry), of_int (snd entry) / of_int totalFromPage)]
                         else probabilities)
                   (transitions t) []))"

text \<open>
  \<^verbatim>\<open>static_cast<size_t>(maxPredictions)\<close>, with a \<^verbatim>\<open>size_t\<close> of 64 bits: a negative
  \<^verbatim>\<open>int\<close> wraps to a value above every vector length.
\<close>

definition size_t_of_int :: "int \<Rightarrow> nat" where
  "size_t_of_int i = nat (i mod 2 ^ 64)"

definition select_predictions :: "rat \<Rightarrow> int \<Rightarrow> (int \<times> rat) list \<Rightarrow> int list" where
  "select_predictions threshold maxPred probabilities =
     fold (\<lambda>prob result.
             if snd prob \<ge> threshold \<and> length result < size_t_of_int maxPred
             then result @ [fst prob] else result)
       probabilities []"

text \<open>
  \<^verbatim>\<open>getPredictions\<close> is \<^verbatim>\<open>const\<close> in the source but counts the request and memoizes its
  result through \<^verbatim>\<open>const_cast\<close>; the model returns the result and the table after the call.
\<close>

definition getPredictions :: "int \<Rightarrow> PatternTable \<Rightarrow> int list \<times> PatternTable" where
  "getPredictions currentPage t =
     (let t1 = t\<lparr>predictionRequests := predictionRequests t + 1\<rparr>
      in if \<not> isValidPage currentPage then ([], t1)
         else case map_of (predictions t1) currentPage of
                Some cached \<Rightarrow> (cached, t1)
              | None \<Rightarrow>
                  (let result = select_predictions (confidenceThreshold t1) (maxPredictions t1)
                                  (calculateProbabilities t1 currentPage)
                   in (result, t1\<lparr>predictions := map_assign currentPage result (predictions t1)\<rparr>)))"

definition getPredictionsWithConfidence ::
  "int \<Rightarrow> PatternTable \<Rightarrow> (int \<times> rat) list \<times> PatternTable" where
  "getPredictionsWithConfidence currentPage t =
     (let t1 = t\<lparr>predictionRequests := predictionRequests t + 1\<rparr>
      in if \<not> isValidPage currentPage then ([], t1)
         else (calculateProbabilities t1 currentPage, t1))"

definition clear :: "PatternTable \<Rightarrow> PatternTable" where
  "clear t = t\<lparr>transitions := [], predictions := [], totalTransitions := 0,
               totalUpdates := 0, predictionRequests := 0, successfulPredictions := 0\<rparr>"

definition clearPredictionsCache :: "PatternTable \<Rightarrow> PatternTable" where
  "clearPredictionsCache t = t\<lparr>predictions := []\<rparr>"

text \<open>
  The loop of \<^verbatim>\<open>compact\<close> walks the map once; an entry below \<^verbatim>\<open>minCount\<close> is erased and
  its count is taken off the running total.
\<close>

fun compact_loop ::
  "int \<Rightarrow> (PageTransition \<times> int) list \<Rightarrow> int \<Rightarrow> (PageTransition \<times> int) list \<times> int" where
  "compact_loop minCount [] running = ([], running)"
| "compact_loop minCount (e # es) running =
     (if snd e < minCount then compact_loop minCount es (running - snd e)
      else (case compact_loop minCount es running of (kept, running') \<Rightarrow> (e # kept, running')))"

definition compact_table :: "int \<Rightarrow> PatternTable \<Rightarrow> PatternTable" where
  "compact_table minCount t =
     (case compact_loop minCount (transitions t) (totalTransitions t) of
        (kept, running) \<Rightarrow>
          clearPredictionsCache (t\<lparr>transitions := kept, totalTransitions := running\<rparr>))"

text \<open>
  Arithmetic on \<^verbatim>\<open>double\<close> is that of IEEE 754 binary64: the result of an operation is
  the exact result rounded to the nearest number with a significand of 53 bits, and to
  the one with an even significand when two are equally near. \<open>pow2 k\<close> is the power
  \<open>2\<^sup>k\<close> for an integer \<open>k\<close>; \<open>binary_exponent x\<close> is, for a positive \<open>x\<close>, the exponent
  \<open>e\<close> with \<open>2\<^sup>e \<le> x < 2\<^sup>e\<^sup>+\<^sup>1\<close>, found from the bit lengths of the numerator and the
  denominator; \<open>double_round x\<close> is the double nearest to \<open>x\<close>: the spacing of the doubles
  around \<open>x\<close> is \<open>2\<^sup>q\<close> with \<open>q\<close> the exponent of \<open>x\<close> less 52, and not less than -1074
  (the subnormal numbers). Overflow to infinity, which needs a magnitude of \<open>2\<^sup>1\<^sup>0\<^sup>2\<^sup>4\<close>, is
  left out. \<open>double_mul\<close> is the product of two doubles.
\<close>

definition pow2 :: "int \<Rightarrow> rat" where
  "pow2 k = (if 0 \<le> k then 2 ^ nat k else 1 / 2 ^ nat (- k))"

definition binary_exponent :: "rat \<Rightarrow> int" where
  "binary_exponent x =
     (let d = bitlen (fst (quotient_of x)) - bitlen (snd (quotient_of x))
      in if pow2 d \<le> x then d else d - 1)"

definition round_half_even :: "rat \<Rightarrow> int" where
  "round_half_even m =
     (let n = \<lfloor>m\<rfloor>; r = m - of_int n
      in if r < 1 / 2 then n else if 1 / 2 < r then n + 1 else if even n then n else n + 1)"

definition double_round :: "rat \<Rightarrow> rat" where
  "double_round x =
     (if x = 0 then 0
      else let q = max (binary_exponent \<bar>x\<bar> - 52) (- 1074)
           in sgn x * of_int (round_half_even (\<bar>x\<bar> / pow2 q)) * pow2 q)"

definition double_mul :: "rat \<Rightarrow> rat \<Rightarrow> rat" where
  "double_mul a b = double_round (a * b)"

text \<open>\<^verbatim>\<open>static_cast<int>\<close> of a \<^verbatim>\<open>double\<close> truncates toward zero.\<close>

definition cast_int :: "rat \<Rightarrow> int" where
  "cast_int x = (if 0 \<le> x then \<lfloor>x\<rfloor> else \<lceil>x\<rceil>)"

text \<open>
  In \<^verbatim>\<open>entry.second * factor\<close> the count is converted to \<^verbatim>\<open>double\<close>, which is exact for
  an \<^verbatim>\<open>int\<close>, and multiplied by the factor as a double.
\<close>

definition decay_entry :: "rat \<Rightarrow> PageTransition \<times> int \<Rightarrow> PageTransition \<times> int" where
  "decay_entry factor entry =
     (let second = cast_int (double_mul (of_int (snd entry)) factor)
      in (fst entry, if second = 0 then 1 else second))"

definition decay :: "rat \<Rightarrow> PatternTable \<Rightarrow> PatternTable" where
  "decay factor t =
     (if factor \<le> 0 \<or> factor \<ge> 1 then t
      else clearPredictionsCache
             (t\<lparr>transitions := map (decay_entry factor) (transitions t),
                totalTransitions := cast_int (double_mul (of_int (totalTransitions t)) factor)\<rparr>))"

text \<open>The public operations that change a table, and a run of them.\<close>

datatype table_op =
    RecordTransition int int
  | RecordSequence "int list"
  | UpdatePattern int int int
  | GetPredictions int
  | GetPredictionsWithConfidence int
  | Clear
  | ClearPredictionsCache
  | Compact int
  | Decay rat
  | SetConfidenceThreshold rat
  | SetMaxPredictions int
  | SetEnableLearning bool

fun apply_op :: "table_op \<Rightarrow> PatternTable \<Rightarrow> PatternTable" where
  "apply_op (RecordTransition a b) t = recordTransition a b t"
| "apply_op (RecordSequence ps) t = recordSequence ps t"
| "apply_op (UpdatePattern a b c) t = updatePattern a b c t"
| "apply_op (GetPredictions p) t = snd (getPredictions p t)"
| "apply_op (GetPredictionsWithConfidence p) t = snd (getPredictionsWithConfidence p t)"
| "apply_op Clear t = clear t"
| "apply_op ClearPredictionsCache t = clearPredictionsCache t"
| "apply_op (Compact m) t = compact_table m t"
| "apply_op (Decay f) t = decay f t"
| "apply_op (SetConfidenceThreshold x) t = t\<lparr>confidenceThreshold := x\<rparr>"
| "apply_op (SetMaxPredictions n) t = t\<lparr>maxPredictions := n\<rparr>"
| "apply_op (SetEnableLearning b) t = t\<lparr>enableLearning := b\<rparr>"

definition run_ops :: "table_op list \<Rightarrow> PatternTable \<Rightarrow> PatternTable" where
  "run_ops ops t = fold apply_op ops t"

fun is_decay :: "table_op \<Rightarrow> bool" where
  "is_decay (Decay f) = True"
| "is_decay _ = False"

fun is_config_change :: "table_op \<Rightarrow> bool" where
  "is_config_change (SetConfidenceThreshold x) = True"
| "is_config_change (SetMaxPredictions n) = True"
| "is_config_change _ = False"

definition getTotalTransitions :: "PatternTable \<Rightarrow> int" where
  "getTotalTransitions t = totalTransitions t"

section \<open>CacheEntry\<close>

text \<open>
  A \<^verbatim>\<open>simtime_t\<close> is a fixed-point number of seconds; it is modelled by a rational
  number, within the range the simulation clock can hold. The clock \<^verbatim>\<open>simTime()\<close> is
  the argument \<open>now\<close> of every function that reads it.
\<close>

type_synonym simtime = rat

record CacheEntry =
  resourceId :: int
  content :: string
  contentSize :: int
  timestamp :: simtime
  ttl :: int
  accessCount :: int
  lastAccess :: simtime
  dirty :: bool

definition setContent :: "string \<Rightarrow> CacheEntry \<Rightarrow> CacheEntry" where
  "setContent pageContent e =
     e\<lparr>content := pageContent, contentSize := int (length pageContent), dirty := True\<rparr>"

text \<open>The constructor \<^verbatim>\<open>CacheEntry(resId, pageContent, ttlSeconds)\<close>, called at time \<open>now\<close>.\<close>

definition CacheEntry_init :: "simtime \<Rightarrow> int \<Rightarrow> string \<Rightarrow> int \<Rightarrow> CacheEntry" where
  "CacheEntry_init now resId pageContent ttlSeconds =
     (setContent pageContent
        \<lparr>resourceId = resId, content = [], contentSize = 0, timestamp = now,
         ttl = ttlSeconds, accessCount = 1, lastAccess = now, dirty = False\<rparr>)
     \<lparr>dirty := False\<rparr>"

definition setTimestamp :: "simtime \<Rightarrow> CacheEntry \<Rightarrow> CacheEntry" where
  "setTimestamp t e = e\<lparr>timestamp := t\<rparr>"

definition updateAccess :: "simtime \<Rightarrow> CacheEntry \<Rightarrow> CacheEntry" where
  "updateAccess now e = e\<lparr>accessCount := accessCount e + 1, lastAccess := now\<rparr>"

definition isExpired :: "simtime \<Rightarrow> CacheEntry \<Rightarrow> bool" where
  "isExpired now e =
     (if ttl e \<le> 0 then False
      else (let currentTime = now; expiryTime = timestamp e + of_int (ttl e)
            in currentTime \<ge> expiryTime))"

section \<open>HttpServer: pattern learning and the response cache\<close>

text \<open>
  The fields of \<^verbatim>\<open>HttpServer\<close> that pattern learning and cache management read and
  write. A scheduled expiry message is modelled by the name of its page; signals and log
  output are left out.
\<close>

record HttpServer =
  patternTable :: "((string \<times> string) \<times> int) list"
  clientLastPage :: "(int \<times> string) list"
  responseCache :: "(string \<times> CacheEntry) list"
  cacheExpiryMessages :: "(string \<times> unit) list"
  maxCacheSize :: int
  currentCacheSize :: int

text \<open>
  The state that \<^verbatim>\<open>initialize\<close> sets up, first with the capacity as a parameter and then
  with the capacity 20 of the source. The parameter serves the claims that speak of other
  capacities; no function of the source sets \<^verbatim>\<open>maxCacheSize\<close> after \<^verbatim>\<open>initialize\<close>.
\<close>

definition HttpServer_init :: "int \<Rightarrow> HttpServer" where
  "HttpServer_init capacity =
     \<lparr>patternTable = [], clientLastPage = [], responseCache = [],
      cacheExpiryMessages = [], maxCacheSize = capacity, currentCacheSize = 0\<rparr>"

definition initialize :: HttpServer where
  "initialize = HttpServer_init 20"

definition updatePatternTable :: "int \<Rightarrow> string \<Rightarrow> string \<Rightarrow> HttpServer \<Rightarrow> HttpServer" where
  "updatePatternTable clientId fromPage toPage s =
     (if fromPage = [] \<or> toPage = [] \<or> fromPage = toPage then s
      else s\<lparr>patternTable :=
                map_assign (fromPage, toPage)
                  ((case map_of (patternTable s) (fromPage, toPage) of
                      None \<Rightarrow> 0 | Some c \<Rightarrow> c) + 1)
                  (patternTable s),
              clientLastPage := map_assign clientId toPage (clientLastPage s)\<rparr>)"

text \<open>
  \<^verbatim>\<open>checkResponseCache\<close> returns \<^verbatim>\<open>true\<close> and the content through its reference
  argument on a hit: \<open>Some content\<close>; it returns \<^verbatim>\<open>false\<close> on a miss: \<open>None\<close>.
\<close>

definition checkResponseCache ::
  "simtime \<Rightarrow> string \<Rightarrow> HttpServer \<Rightarrow> string option \<times> HttpServer" where
  "checkResponseCache now page s =
     (case map_of (responseCache s) page of
        None \<Rightarrow> (None, s)
      | Some e \<Rightarrow>
          if \<not> isExpired now e
          then (Some (content e),
                s\<lparr>responseCache := map_assign page (updateAccess now e) (responseCache s)\<rparr>)
          else (None,
                s\<lparr>cacheExpiryMessages := map_erase page (cacheExpiryMessages s),
                  responseCache := map_erase page (responseCache s),
                  currentCacheSize := currentCacheSize s - 1\<rparr>))"

text \<open>
  The loop of \<^verbatim>\<open>cleanupExpiredCache\<close>: it walks the cache once, erases each expired
  entry and its expiry message, and counts the cache size down.
\<close>

fun cleanup_loop ::
  "simtime \<Rightarrow> (string \<times> CacheEntry) list \<Rightarrow> (string \<times> unit) list \<Rightarrow> int \<Rightarrow>
   (string \<times> CacheEntry) list \<times> (string \<times> unit) list \<times> int" where
  "cleanup_loop now [] msgs cur = ([], msgs, cur)"
| "cleanup_loop now (it # rest) msgs cur =
     (if isExpired now (snd it)
      then cleanup_loop now rest (map_erase (fst it) msgs) (cur - 1)
      else (case cleanup_loop now rest msgs cur of
              (kept, msgs', cur') \<Rightarrow> (it # kept, msgs', cur')))"

definition cleanupExpiredCache :: "simtime \<Rightarrow> HttpServer \<Rightarrow> HttpServer" where
  "cleanupExpiredCache now s =
     (case cleanup_loop now (responseCache s) (cacheExpiryMessages s) (currentCacheSize s) of
        (kept, msgs, cur) \<Rightarrow>
          s\<lparr>responseCache := kept, cacheExpiryMessages := msgs, currentCacheSize := cur\<rparr>)"

text \<open>
  The search loop of \<^verbatim>\<open>evictLeastRecentlyUsed\<close>: \<open>lruIt\<close> starts at the first entry and
  moves to an entry only when its last access is strictly older.
\<close>

fun find_lru ::
  "string \<times> CacheEntry \<Rightarrow> (string \<times> CacheEntry) list \<Rightarrow> string \<times> CacheEntry" where
  "find_lru lruIt [] = lruIt"
| "find_lru lruIt (it # rest) =
     (if lastAccess (snd it) < lastAccess (snd lruIt) then find_lru it rest
      else find_lru lruIt rest)"

definition evictLeastRecentlyUsed :: "HttpServer \<Rightarrow> HttpServer" where
  "evictLeastRecentlyUsed s =
     (case responseCache s of
        [] \<Rightarrow> s
      | first # rest \<Rightarrow>
          (let lruIt = find_lru first (first # rest)
           in s\<lparr>cacheExpiryMessages := map_erase (fst lruIt) (cacheExpiryMessages s),
                responseCache := map_erase (fst lruIt) (responseCache s),
                currentCacheSize := currentCacheSize s - 1\<rparr>))"

definition addToCacheWithManagement ::
  "simtime \<Rightarrow> string \<Rightarrow> CacheEntry \<Rightarrow> HttpServer \<Rightarrow> bool \<times> HttpServer" where
  "addToCacheWithManagement now pageName entry s =
     (let s1 = (if currentCacheSize s \<ge> maxCacheSize s
                then (let s2 = cleanupExpiredCache now s
                      in if currentCacheSize s2 \<ge> maxCacheSize s2
                         then evictLeastRecentlyUsed s2 else s2)
                else s)
      in (True,
          s1\<lparr>responseCache := map_assign pageName entry (responseCache s1),
             currentCacheSize := currentCacheSize s1 + 1\<rparr>))"

definition scheduleCacheExpiry :: "string \<Rightarrow> HttpServer \<Rightarrow> HttpServer" where
  "scheduleCacheExpiry pageName s =
     s\<lparr>cacheExpiryMessages := map_assign pageName () (map_erase pageName (cacheExpiryMessages s))\<rparr>"

text \<open>
  One insertion as \<^verbatim>\<open>predictivePreCache\<close> performs it at time \<open>now\<close>: it builds the entry
  with resource id -1, stamps it with the clock, adds it through the cache management
  and schedules its expiry. The content and the time to live are parameters here (the
  source generates the content and uses 5 seconds).
\<close>

definition cache_insert :: "simtime \<Rightarrow> string \<Rightarrow> string \<Rightarrow> int \<Rightarrow> HttpServer \<Rightarrow> HttpServer" where
  "cache_insert now pageName responseContent ttlSeconds s =
     (let cacheEntry = setTimestamp now (CacheEntry_init now (- 1) responseContent ttlSeconds);
          (added, s1) = addToCacheWithManagement now pageName cacheEntry s
      in if added then scheduleCacheExpiry pageName s1 else s1)"

text \<open>
  One candidate of the loop of \<^verbatim>\<open>predictivePreCache\<close>, for a page whose transition
  probability exceeds the threshold: a cached entry that has not expired is left alone;
  an expired one is erased from the map, without counting the size down, and the page is
  inserted again; a page that is not cached is inserted.
\<close>

definition preCachePage :: "simtime \<Rightarrow> string \<Rightarrow> string \<Rightarrow> int \<Rightarrow> HttpServer \<Rightarrow> HttpServer" where
  "preCachePage now toPage responseContent ttlSeconds s =
     (case map_of (responseCache s) toPage of
        None \<Rightarrow> cache_insert now toPage responseContent ttlSeconds s
      | Some e \<Rightarrow>
          if \<not> isExpired now e then s
          else cache_insert now toPage responseContent ttlSeconds
                 (s\<lparr>responseCache := map_erase toPage (responseCache s)\<rparr>))"

definition handleCacheExpiry :: "string \<Rightarrow> HttpServer \<Rightarrow> HttpServer" where
  "handleCacheExpiry pageName s =
     (let s1 = (case map_of (responseCache s) pageName of
                  None \<Rightarrow> s
                | Some e \<Rightarrow> s\<lparr>responseCache := map_erase pageName (responseCache s),
                              currentCacheSize := currentCacheSize s - 1\<rparr>)
      in s1\<lparr>cacheExpiryMessages := map_erase pageName (cacheExpiryMessages s1)\<rparr>)"

text \<open>
  The operations on the response cache, each with the time of its call where it reads
  the clock, and a run of them.
\<close>

datatype cache_op =
    Add simtime string CacheEntry
  | Insert simtime string string int
  | PreCache simtime string string int
  | Lookup simtime string
  | Cleanup simtime
  | Evict
  | Expire string

fun apply_cache_op :: "cache_op \<Rightarrow> HttpServer \<Rightarrow> HttpServer" where
  "apply_cache_op (Add now pageName entry) s = snd (addToCacheWithManagement now pageName entry s)"
| "apply_cache_op (Insert now pageName c d) s = cache_insert now pageName c d s"
| "apply_cache_op (PreCache now pageName c d) s = preCachePage now pageName c d s"
| "apply_cache_op (Lookup now page) s = snd (checkResponseCache now page s)"
| "apply_cache_op (Cleanup now) s = cleanupExpiredCache now s"
| "apply_cache_op Evict s = evictLeastRecentlyUsed s"
| "apply_cache_op (Expire pageName) s = handleCacheExpiry pageName s"

definition run_cache :: "cache_op list \<Rightarrow> HttpServer \<Rightarrow> HttpServer" where
  "run_cache ops s = fold apply_cache_op ops s"

text \<open>
  An operation writes the page \<open>k\<close> when it stores an entry under \<open>k\<close>. A lookup is
  before the expiry of the entry of \<open>k\<close> that was inserted at \<open>t0\<close> with the time to live
  \<open>d\<close> when it asks for another page, or asks for \<open>k\<close> at a time that \<^verbatim>\<open>isExpired\<close> does
  not count as expired.
\<close>

fun writes_page :: "string \<Rightarrow> cache_op \<Rightarrow> bool" where
  "writes_page k (Add now pageName entry) = (pageName = k)"
| "writes_page k (Insert now pageName c d) = (pageName = k)"
| "writes_page k (PreCache now pageName c d) = (pageName = k)"
| "writes_page k (Lookup now page) = False"
| "writes_page k (Cleanup now) = False"
| "writes_page k Evict = False"
| "writes_page k (Expire pageName) = False"

fun lookup_before_expiry :: "string \<Rightarrow> simtime \<Rightarrow> int \<Rightarrow> cache_op \<Rightarrow> bool" where
  "lookup_before_expiry k t0 d (Lookup now page) =
     (page \<noteq> k \<or> \<not> (0 < d \<and> t0 + of_int d \<le> now))"
| "lookup_before_expiry k t0 d (Add now pageName entry) = False"
| "lookup_before_expiry k t0 d (Insert now pageName c ttlSeconds) = False"
| "lookup_before_expiry k t0 d (PreCache now pageName c ttlSeconds) = False"
| "lookup_before_expiry k t0 d (Cleanup now) = False"
| "lookup_before_expiry k t0 d Evict = False"
| "lookup_before_expiry k t0 d (Expire pageName) = False"

text \<open>An insertion call as the tuple of its time, page name, content and time to live.\<close>

type_synonym insertion = "simtime \<times> string \<times> string \<times> int"

definition insertion_op :: "insertion \<Rightarrow> cache_op" where
  "insertion_op i = (case i of (now, pageName, c, d) \<Rightarrow> Insert now pageName c d)"

definition insertion_time :: "insertion \<Rightarrow> simtime" where
  "insertion_time i = fst i"

definition insertion_key :: "insertion \<Rightarrow> string" where
  "insertion_key i = fst (snd i)"

definition insertion_entry :: "insertion \<Rightarrow> CacheEntry" where
  "insertion_entry i =
     (case i of (now, pageName, c, d) \<Rightarrow> setTimestamp now (CacheEntry_init now (- 1) c d))"

section \<open>HttpServer with a configured cache size\<close>















section \<open>Invariants of the model\<close>

text \<open>
  A table is well formed when its transitions are in key order without duplicates, every
  stored page is valid and every stored count is positive.
\<close>

definition table_ok :: "PatternTable \<Rightarrow> bool" where
  "table_ok t =
     (map_keys_ok (transitions t) \<and>
      (\<forall>e \<in> set (transitions t).
         isValidPage (fst (fst e)) \<and> isValidPage (snd (fst e)) \<and> 1 \<le> snd e))"

definition total_ok :: "PatternTable \<Rightarrow> bool" where
  "total_ok t = (totalTransitions t = sum_list (map snd (transitions t)))"

text \<open>The entries whose source page is \<open>p\<close>, as the loops over \<^verbatim>\<open>transitions\<close> select them.\<close>

definition from_page :: "int \<Rightarrow> (PageTransition \<times> int) list \<Rightarrow> (PageTransition \<times> int) list" where
  "from_page p m = filter (\<lambda>entry. fst (fst entry) = p) m"

text \<open>
  The memoized predictions are coherent when every stored list is what \<open>getPredictions\<close>
  would compute now for its page.
\<close>

definition memo_ok :: "PatternTable \<Rightarrow> bool" where
  "memo_ok t =
     (\<forall>p cached. map_of (predictions t) p = Some cached \<longrightarrow>
        cached = select_predictions (confidenceThreshold t) (maxPredictions t)
                   (calculateProbabilities t p))"

text \<open>
  The first half of \<^verbatim>\<open>addToCacheWithManagement\<close>, up to the point where the new entry is
  stored: when the size counter has reached the capacity, expired entries are cleaned up,
  and if the counter is still at the capacity the least recently used entry is evicted.
\<close>

definition make_room :: "simtime \<Rightarrow> HttpServer \<Rightarrow> HttpServer" where
  "make_room now s =
     (if currentCacheSize s \<ge> maxCacheSize s
      then (let s2 = cleanupExpiredCache now s
            in if currentCacheSize s2 \<ge> maxCacheSize s2
               then evictLeastRecentlyUsed s2 else s2)
      else s)"

text \<open>
  The invariant of the cache for a capacity of at least 1: the entries are in key order,
  and there are no more entries than the size counter says and than the capacity allows.
  The size counter itself can exceed the capacity, since it is counted up for a page that
  is stored again and is not counted down where \<^verbatim>\<open>predictivePreCache\<close> erases an entry.
\<close>

definition cache_inv :: "HttpServer \<Rightarrow> bool" where
  "cache_inv s =
     (map_keys_ok (responseCache s) \<and>
      1 \<le> maxCacheSize s \<and>
      int (length (responseCache s)) \<le> currentCacheSize s \<and>
      int (length (responseCache s)) \<le> maxCacheSize s)"

text \<open>
  The page \<open>k\<close> holds the insertion made at \<open>t0\<close> with the content \<open>c\<close> and the time to
  live \<open>d\<close> when the entry stored under \<open>k\<close>, if there is one, has that time stamp, time
  to live and content.
\<close>

definition holds_insertion :: "string \<Rightarrow> simtime \<Rightarrow> int \<Rightarrow> string \<Rightarrow> HttpServer \<Rightarrow> bool" where
  "holds_insertion k t0 d c s =
     (case map_of (responseCache s) k of
        None \<Rightarrow> True
      | Some e \<Rightarrow> timestamp e = t0 \<and> ttl e = d \<and> content e = c)"

text \<open>The entry that an insertion stores under its key.\<close>

definition stored :: "insertion \<Rightarrow> string \<times> CacheEntry" where
  "stored i = (insertion_key i, insertion_entry i)"

section \<open>Facts about ordered maps\<close>

lemma map_of_map_assign: "map_of (map_assign k v m) = (map_of m)(k \<mapsto> v)"
  by (induction m) (auto simp: fun_eq_iff)

lemma map_keys_ok_Cons: "map_keys_ok (e # es) = ((\<forall>x \<in> set es. fst e < fst x) \<and> map_keys_ok es)"
  by (auto simp: map_keys_ok_def)

lemma map_keys_ok_Nil: "map_keys_ok []"
  by (simp add: map_keys_ok_def)

lemma set_map_assign_subset: "set (map_assign k v m) \<subseteq> insert (k, v) (set m)"
  by (induction m) auto

lemma map_keys_ok_map_assign: "map_keys_ok m \<Longrightarrow> map_keys_ok (map_assign k v m)"
proof (induction m)
  case Nil
  show ?case by (simp add: map_keys_ok_def)
next
  case (Cons e es)
  have sub: "set (map_assign k v es) \<subseteq> insert (k, v) (set es)"
    by (rule set_map_assign_subset)
  from Cons show ?case
    using sub by (auto simp: map_keys_ok_Cons)
qed

lemma map_keys_ok_filter: "map_keys_ok m \<Longrightarrow> map_keys_ok (filter P m)"
  by (induction m) (auto simp: map_keys_ok_Cons map_keys_ok_Nil)

lemma map_keys_ok_map_erase: "map_keys_ok m \<Longrightarrow> map_keys_ok (map_erase k m)"
  by (simp add: map_erase_def map_keys_ok_filter)

lemma map_keys_ok_distinct: "map_keys_ok m \<Longrightarrow> distinct (map fst m)"
  by (induction m) (auto simp: map_keys_ok_Cons)

lemma map_of_keys_ok: "map_keys_ok m \<Longrightarrow> e \<in> set m \<Longrightarrow> map_of m (fst e) = Some (snd e)"
  by (simp add: map_keys_ok_distinct)

lemma map_of_below_head: "map_keys_ok (e # es) \<Longrightarrow> k < fst e \<Longrightarrow> map_of (e # es) k = None"
  by (force simp: map_keys_ok_Cons map_of_eq_None_iff)

lemma sum_map_assign:
  "map_keys_ok m \<Longrightarrow>
   sum_list (map snd (map_assign k v m)) =
     sum_list (map snd m) + v - (case map_of m k of None \<Rightarrow> 0 | Some (c::int) \<Rightarrow> c)"
proof (induction m)
  case Nil
  show ?case by simp
next
  case (Cons e es)
  show ?case
  proof (cases "fst e < k")
    case True
    with Cons show ?thesis by (auto simp: map_keys_ok_Cons)
  next
    case False
    show ?thesis
    proof (cases "fst e = k")
      case True
      then show ?thesis by (cases e) auto
    next
      case neq: False
      with False have "k < fst e" by simp
      from map_of_below_head [OF Cons.prems this] False neq show ?thesis by simp
    qed
  qed
qed

lemma filter_map_assign_other:
  "\<not> P k \<Longrightarrow> filter (\<lambda>e. P (fst e)) (map_assign k v m) = filter (\<lambda>e. P (fst e)) m"
  by (induction m) auto

lemma map_erase_absent: "map_of (map_erase k m) k = None"
  by (induction m) (auto simp: map_erase_def)

lemma map_of_map_erase_other: "k' \<noteq> k \<Longrightarrow> map_of (map_erase k m) k' = map_of m k'"
  by (induction m) (auto simp: map_erase_def)

section \<open>Rounding to a double\<close>

lemma pow2_pos: "0 < pow2 k"
  by (simp add: pow2_def)

lemma pow2_mono: "i \<le> j \<Longrightarrow> pow2 i \<le> pow2 j"
proof -
  assume ij: "i \<le> j"
  have eq: "pow2 k = 2 powi k" for k
    by (simp add: pow2_def power_int_def field_simps)
  show ?thesis unfolding eq using ij by (intro power_int_increasing) simp_all
qed

lemma round_half_even_ge: "of_int N \<le> m \<Longrightarrow> N \<le> round_half_even m"
proof -
  assume "of_int N \<le> m"
  then have "N \<le> \<lfloor>m\<rfloor>" by (simp add: le_floor_iff)
  then show ?thesis by (simp add: round_half_even_def Let_def)
qed

lemma round_half_even_le: "m \<le> of_int N \<Longrightarrow> round_half_even m \<le> N"
proof -
  assume le: "m \<le> of_int N"
  show ?thesis
  proof (cases "m = of_int N")
    case True
    then show ?thesis by (simp add: round_half_even_def Let_def)
  next
    case False
    with le have "m < of_int N" by simp
    then have "\<lfloor>m\<rfloor> < N" by (simp add: floor_less_iff)
    then show ?thesis by (simp add: round_half_even_def Let_def)
  qed
qed

lemma binary_exponent_less:
  assumes x: "0 < x" and b: "x < pow2 k"
  shows "binary_exponent x < k"
proof -
  obtain a b where q: "quotient_of x = (a, b)" by (cases "quotient_of x")
  have bpos: "0 < b" using quotient_of_denom_pos [OF q] .
  have xe: "x = of_int a / of_int b" using quotient_of_div [OF q] .
  have apos: "0 < a" using x bpos unfolding xe by (simp add: zero_less_divide_iff)
  define d where "d = bitlen a - bitlen b"
  have be: "binary_exponent x = (if pow2 d \<le> x then d else d - 1)"
    by (simp add: binary_exponent_def q d_def Let_def)
  show ?thesis
  proof (cases "pow2 d \<le> x")
    case True
    with b have "pow2 d < pow2 k" by simp
    then have "d < k" using pow2_mono [of k d] by (cases "d < k") simp_all
    with True be show ?thesis by simp
  next
    case False
    have la: "(2::int) ^ nat (bitlen a - 1) \<le> a" using bitlen_bounds [OF apos] by simp
    have lb: "b < (2::int) ^ nat (bitlen b)" using bitlen_bounds [OF bpos] by simp
    have la1: "1 \<le> bitlen a" using apos bitlen_eq_zero_iff [of a] bitlen_nonneg [of a] by linarith
    have lb0: "0 \<le> bitlen b" by (rule bitlen_nonneg)
    have "d - 1 < k"
    proof (rule ccontr)
      assume "\<not> d - 1 < k"
      then have kd: "k \<le> d - 1" by simp
      have ra: "(2::rat) ^ nat (bitlen a - 1) \<le> of_int a"
        using la by (metis of_int_le_iff of_int_numeral of_int_power)
      have rb: "of_int b < (2::rat) ^ nat (bitlen b)"
        using lb by (metis of_int_less_iff of_int_numeral of_int_power)
      have "pow2 (d - 1) * of_int b \<le> of_int a"
      proof (cases "0 \<le> d - 1")
        case True
        then have n: "nat (bitlen a - 1) = nat (d - 1) + nat (bitlen b)"
          using lb0 by (simp add: d_def)
        have "pow2 (d - 1) * of_int b \<le> 2 ^ nat (d - 1) * 2 ^ nat (bitlen b)"
          using True rb by (simp add: pow2_def)
        also have "\<dots> = 2 ^ nat (bitlen a - 1)" by (simp add: n power_add)
        finally have "pow2 (d - 1) * of_int b \<le> 2 ^ nat (bitlen a - 1)" .
        then show ?thesis using ra by (rule order_trans)
      next
        case False
        then have n: "nat (bitlen b) = nat (- (d - 1)) + nat (bitlen a - 1)"
          using la1 by (simp add: d_def)
        have "pow2 (d - 1) * of_int b \<le> (1 / 2 ^ nat (- (d - 1))) * 2 ^ nat (bitlen b)"
          using False rb by (simp add: pow2_def field_simps)
        also have "\<dots> = 2 ^ nat (bitlen a - 1)" by (simp add: n power_add)
        finally have "pow2 (d - 1) * of_int b \<le> 2 ^ nat (bitlen a - 1)" .
        then show ?thesis using ra by (rule order_trans)
      qed
      then have "pow2 (d - 1) \<le> x" using bpos unfolding xe by (simp add: field_simps)
      with pow2_mono [OF kd] b show False by simp
    qed
    with False be show ?thesis by simp
  qed
qed

lemma double_round_nonneg: "0 \<le> x \<Longrightarrow> 0 \<le> double_round x"
proof -
  assume x: "0 \<le> x"
  have "0 \<le> round_half_even (\<bar>x\<bar> / pow2 q)" for q
    using pow2_pos [of q] x by (intro round_half_even_ge) simp
  then show ?thesis
    using x pow2_pos by (simp add: double_round_def Let_def sgn_if less_imp_le)
qed

lemma double_round_between:
  assumes x: "0 \<le> x" and b: "x < 2 ^ 53" and lo: "of_int n \<le> x" and hi: "x \<le> of_int n'"
  shows "of_int n \<le> double_round x \<and> double_round x \<le> of_int n'"
proof (cases "x = 0")
  case True
  with lo hi show ?thesis by (simp add: double_round_def)
next
  case False
  with x have xp: "0 < x" by simp
  define q where "q = max (binary_exponent \<bar>x\<bar> - 52) (- 1074)"
  define j where "j = nat (- q)"
  have "x < pow2 53" using b by (simp add: pow2_def)
  then have "binary_exponent x < 53" using binary_exponent_less [OF xp] by simp
  then have q0: "q \<le> 0" using xp by (simp add: q_def)
  then have pq: "pow2 q = 1 / 2 ^ j"
    by (cases "q = 0") (simp_all add: pow2_def j_def)
  define R where "R = round_half_even (\<bar>x\<bar> / pow2 q)"
  have "double_round x = sgn x * of_int R * pow2 q"
    unfolding double_round_def R_def q_def Let_def using False by (simp only: if_False)
  then have dr: "double_round x = of_int R / 2 ^ j"
    using xp by (simp add: pq)
  have m: "\<bar>x\<bar> / pow2 q = x * 2 ^ j" using xp by (simp add: pq)
  have "of_int (n * 2 ^ j) \<le> x * 2 ^ j" using lo by simp
  then have 1: "n * 2 ^ j \<le> R" unfolding R_def m by (rule round_half_even_ge)
  have "x * 2 ^ j \<le> of_int (n' * 2 ^ j)" using hi by simp
  then have 2: "R \<le> n' * 2 ^ j" unfolding R_def m by (rule round_half_even_le)
  have "of_int (n * 2 ^ j) \<le> (of_int R :: rat)" using 1 by (simp only: of_int_le_iff)
  then have A: "of_int n \<le> double_round x" unfolding dr by (simp add: field_simps)
  have "(of_int R :: rat) \<le> of_int (n' * 2 ^ j)" using 2 by (simp only: of_int_le_iff)
  then have B: "double_round x \<le> of_int n'" unfolding dr by (simp add: field_simps)
  from A B show ?thesis ..
qed

lemma floor_double_round:
  assumes x: "0 \<le> x" and b: "x < 2 ^ 53"
  shows "\<lfloor>x\<rfloor> \<le> \<lfloor>double_round x\<rfloor> \<and> \<lfloor>double_round x\<rfloor> \<le> \<lfloor>x\<rfloor> + 1"
proof -
  have "of_int \<lfloor>x\<rfloor> \<le> x" by simp
  moreover have "x \<le> of_int (\<lfloor>x\<rfloor> + 1)" by simp linarith
  ultimately have "of_int \<lfloor>x\<rfloor> \<le> double_round x \<and> double_round x \<le> of_int (\<lfloor>x\<rfloor> + 1)"
    by (rule double_round_between [OF x b])
  then show ?thesis by (simp add: le_floor_iff floor_le_iff)
qed

lemma round_half_even_of_int: "round_half_even (of_int N) = N"
  by (simp add: round_half_even_def Let_def)

lemma double_round_half:
  assumes c: "0 \<le> c" and b: "c < 2 ^ 53"
  shows "double_round (of_int c / 2) = of_int c / 2"
proof (cases "c = 0")
  case True
  then show ?thesis by (simp add: double_round_def)
next
  case False
  define x :: rat where "x = of_int c / 2"
  from False c have cp: "0 < c" by simp
  then have xp: "0 < x" by (simp add: x_def)
  define q where "q = max (binary_exponent \<bar>x\<bar> - 52) (- 1074)"
  define j where "j = nat (- q - 1)"
  have "(of_int c :: rat) < of_int (2 ^ 53)" using b by (simp only: of_int_less_iff)
  then have "x < pow2 52" by (simp add: pow2_def x_def)
  then have "binary_exponent x < 52" using binary_exponent_less [OF xp] by simp
  then have q0: "q \<le> - 1" using xp by (simp add: q_def)
  then have pq: "pow2 q = 1 / (2 * 2 ^ j)"
  proof -
    from q0 have "nat (- q) = Suc j" by (simp add: j_def)
    with q0 show ?thesis by (simp add: pow2_def)
  qed
  from xp have "x \<noteq> 0" by simp
  then have "double_round x = sgn x * of_int (round_half_even (\<bar>x\<bar> / pow2 q)) * pow2 q"
    unfolding double_round_def q_def Let_def by (simp only: if_False)
  moreover have "\<bar>x\<bar> / pow2 q = of_int (c * 2 ^ j)" using xp by (simp add: pq x_def)
  ultimately have "double_round x = of_int (c * 2 ^ j) * pow2 q"
    using xp by (simp only: round_half_even_of_int) simp
  then show ?thesis unfolding x_def by (simp add: pq)
qed

lemma floor_double_mul:
  assumes c: "0 \<le> c" and b: "c < 2 ^ 31" and f: "0 < f" "f < 1"
  shows "\<lfloor>of_int c * f\<rfloor> \<le> \<lfloor>double_mul (of_int c) f\<rfloor> \<and>
         \<lfloor>double_mul (of_int c) f\<rfloor> \<le> \<lfloor>of_int c * f\<rfloor> + 1"
proof -
  have nn: "0 \<le> of_int c * f" using c f by simp
  have "of_int c * f \<le> of_int c * 1" using c f by (intro mult_left_mono) simp_all
  also have "(of_int c :: rat) < of_int (2 ^ 31)" using b by (simp only: of_int_less_iff)
  also have "(of_int (2 ^ 31) :: rat) < 2 ^ 53" by simp
  finally have "of_int c * f < 2 ^ 53" by simp
  from floor_double_round [OF nn this] show ?thesis by (simp add: double_mul_def)
qed

section \<open>Well-formed tables\<close>

lemma table_ok_init: "table_ok (PatternTable_init thr mp)"
  by (simp add: table_ok_def PatternTable_init_def map_keys_ok_Nil)

lemma getTransitionCount_nonneg: "table_ok t \<Longrightarrow> 0 \<le> getTransitionCount t a b"
proof (cases "map_of (transitions t) (a, b)")
  case None
  then show ?thesis by (simp add: getTransitionCount_def)
next
  case (Some c)
  assume ok: "table_ok t"
  from Some have "((a, b), c) \<in> set (transitions t)" by (rule map_of_SomeD)
  with ok have "1 \<le> c" by (auto simp: table_ok_def)
  with Some show ?thesis by (simp add: getTransitionCount_def)
qed

lemma table_ok_assign:
  assumes "table_ok t" "isValidPage a" "isValidPage b" "1 \<le> c"
  shows "table_ok (t\<lparr>transitions := map_assign (a, b) c (transitions t)\<rparr>)"
proof -
  have sub: "set (map_assign (a, b) c (transitions t)) \<subseteq> insert ((a, b), c) (set (transitions t))"
    by (rule set_map_assign_subset)
  from assms show ?thesis
    using sub by (auto simp: table_ok_def map_keys_ok_map_assign)
qed

lemma table_ok_transitions_cong: "transitions t' = transitions t \<Longrightarrow> table_ok t' = table_ok t"
  by (simp add: table_ok_def)

lemma table_ok_recordTransition: "table_ok t \<Longrightarrow> table_ok (recordTransition a b t)"
proof -
  assume ok: "table_ok t"
  show ?thesis
  proof (cases "\<not> enableLearning t \<or> \<not> isValidPage a \<or> \<not> isValidPage b")
    case True
    with ok show ?thesis by (simp add: recordTransition_def)
  next
    case False
    from getTransitionCount_nonneg [OF ok, of a b] have "1 \<le> getTransitionCount t a b + 1" by simp
    with ok False have "table_ok (t\<lparr>transitions := map_assign (a, b) (getTransitionCount t a b + 1) (transitions t)\<rparr>)"
      by (intro table_ok_assign) auto
    with False show ?thesis by (simp add: recordTransition_def table_ok_def)
  qed
qed

lemma table_ok_updatePattern: "table_ok t \<Longrightarrow> table_ok (updatePattern a b c t)"
proof -
  assume ok: "table_ok t"
  show ?thesis
  proof (cases "\<not> enableLearning t \<or> \<not> isValidPage a \<or> \<not> isValidPage b \<or> c \<le> 0")
    case True
    with ok show ?thesis by (simp add: updatePattern_def)
  next
    case False
    with getTransitionCount_nonneg [OF ok, of a b] have "1 \<le> getTransitionCount t a b + c" by simp
    with ok False have "table_ok (t\<lparr>transitions := map_assign (a, b) (getTransitionCount t a b + c) (transitions t)\<rparr>)"
      by (intro table_ok_assign) auto
    with False show ?thesis by (simp add: updatePattern_def table_ok_def)
  qed
qed

lemma table_ok_recordSequence_loop: "table_ok t \<Longrightarrow> table_ok (recordSequence_loop ps t)"
  by (induction ps t rule: recordSequence_loop.induct) (simp_all add: table_ok_recordTransition)

lemma table_ok_recordSequence: "table_ok t \<Longrightarrow> table_ok (recordSequence ps t)"
  by (simp add: recordSequence_def table_ok_recordSequence_loop)

lemma transitions_getPredictions: "transitions (snd (getPredictions p t)) = transitions t"
  by (simp add: getPredictions_def Let_def split: option.splits)

lemma transitions_getPredictionsWithConfidence:
  "transitions (snd (getPredictionsWithConfidence p t)) = transitions t"
  by (simp add: getPredictionsWithConfidence_def Let_def)

lemma compact_loop_eq:
  "compact_loop mc es tot =
     (filter (\<lambda>e. \<not> snd e < mc) es, tot - sum_list (map snd (filter (\<lambda>e. snd e < mc) es)))"
  by (induction es arbitrary: tot) auto

lemma transitions_compact:
  "transitions (compact_table mc t) = filter (\<lambda>e. \<not> snd e < mc) (transitions t)"
  by (simp add: compact_table_def compact_loop_eq clearPredictionsCache_def)

lemma table_ok_compact: "table_ok t \<Longrightarrow> table_ok (compact_table mc t)"
  by (simp add: table_ok_def transitions_compact map_keys_ok_filter)

lemma cast_int_nonneg: "0 \<le> x \<Longrightarrow> cast_int x = \<lfloor>x\<rfloor>"
  by (simp add: cast_int_def)

lemma decay_entry_count:
  "1 \<le> snd e \<Longrightarrow> 0 < f \<Longrightarrow>
   snd (decay_entry f e) = max 1 \<lfloor>double_mul (of_int (snd e)) f\<rfloor>"
proof -
  assume "1 \<le> snd e" "0 < f"
  then have "0 \<le> of_int (snd e) * f" by simp
  then have nn: "0 \<le> double_mul (of_int (snd e)) f"
    unfolding double_mul_def by (rule double_round_nonneg)
  define n where "n = \<lfloor>double_mul (of_int (snd e)) f\<rfloor>"
  have "0 \<le> n" unfolding n_def using nn by simp
  moreover have "snd (decay_entry f e) = (if n = 0 then 1 else n)"
    unfolding n_def by (simp add: decay_entry_def Let_def cast_int_nonneg [OF nn])
  ultimately have "snd (decay_entry f e) = max 1 n" by (simp add: max_def)
  then show ?thesis unfolding n_def .
qed

lemma fst_decay_entry: "fst (decay_entry f e) = fst e"
  by (simp add: decay_entry_def Let_def)

lemma table_ok_decay: "table_ok t \<Longrightarrow> table_ok (decay f t)"
proof (cases "f \<le> 0 \<or> f \<ge> 1")
  case True
  assume "table_ok t"
  with True show ?thesis by (simp add: decay_def)
next
  case False
  assume ok: "table_ok t"
  have keys: "map (fst \<circ> decay_entry f) (transitions t) = map fst (transitions t)"
    by (simp add: fst_decay_entry comp_def)
  have "1 \<le> snd (decay_entry f e)" if "e \<in> set (transitions t)" for e
  proof -
    from ok that have "1 \<le> snd e" by (simp add: table_ok_def)
    with False show ?thesis by (simp add: decay_entry_count)
  qed
  with ok False show ?thesis
    by (auto simp: decay_def clearPredictionsCache_def table_ok_def map_keys_ok_def fst_decay_entry keys)
qed

lemma table_ok_apply_op: "table_ok t \<Longrightarrow> table_ok (apply_op x t)"
proof (cases x)
  case (GetPredictions p)
  assume "table_ok t"
  then show ?thesis
    unfolding GetPredictions apply_op.simps
    by (simp add: table_ok_transitions_cong [OF transitions_getPredictions])
next
  case (GetPredictionsWithConfidence p)
  assume "table_ok t"
  then show ?thesis
    unfolding GetPredictionsWithConfidence apply_op.simps
    by (simp add: table_ok_transitions_cong [OF transitions_getPredictionsWithConfidence])
qed (simp_all add: table_ok_recordTransition table_ok_recordSequence table_ok_updatePattern
      table_ok_compact table_ok_decay,
     simp_all add: table_ok_def clear_def clearPredictionsCache_def map_keys_ok_Nil)

lemma table_ok_fold: "table_ok t \<Longrightarrow> table_ok (fold apply_op ops t)"
  by (induction ops arbitrary: t) (simp_all add: table_ok_apply_op)

lemma table_ok_run_ops: "table_ok (run_ops ops (PatternTable_init thr mp))"
  by (simp add: run_ops_def table_ok_fold table_ok_init)

section \<open>Totals and probabilities\<close>

lemma fold_add_filter:
  "fold (\<lambda>entry acc. if P entry then acc + snd entry else acc) m (a::int) =
     a + sum_list (map snd (filter P m))"
  by (induction m arbitrary: a) auto

lemma fold_snoc_filter:
  "fold (\<lambda>entry acc. if P entry then acc @ [g entry] else acc) m acc0 =
     acc0 @ map g (filter P m)"
  by (induction m arbitrary: acc0) auto

lemma getTotalTransitionsFrom_sum:
  "getTotalTransitionsFrom t p = sum_list (map snd (from_page p (transitions t)))"
  by (simp add: getTotalTransitionsFrom_def fold_add_filter from_page_def)

lemma getReachablePages_map:
  "getReachablePages t p = map (\<lambda>entry. snd (fst entry)) (from_page p (transitions t))"
  by (simp add: getReachablePages_def fold_snoc_filter from_page_def)

lemma calculateProbabilities_sort:
  "calculateProbabilities t p =
     (if getTotalTransitionsFrom t p = 0 then []
      else sort_by_probability
             (map (\<lambda>entry. (snd (fst entry),
                     of_int (snd entry) / of_int (getTotalTransitionsFrom t p)))
                (from_page p (transitions t))))"
  by (simp add: calculateProbabilities_def Let_def fold_snoc_filter from_page_def)

lemma sum_list_insort_key:
  "sum_list (map f (insort_key g x xs)) = f x + sum_list (map f xs)"
  for f :: "'a \<Rightarrow> rat"
  by (induction xs) auto

lemma sum_list_sort_key: "sum_list (map f (sort_key g xs)) = sum_list (map f xs)"
  for f :: "'a \<Rightarrow> rat"
  by (induction xs) (simp_all add: sum_list_insort_key)

lemma sum_list_sort_by_probability:
  "sum_list (map snd (sort_by_probability ps)) = sum_list (map snd ps)"
  by (simp add: sort_by_probability_def sum_list_sort_key)

lemma set_sort_by_probability: "set (sort_by_probability ps) = set ps"
  by (simp add: sort_by_probability_def)

lemma sum_list_quotients:
  "(\<Sum>entry\<leftarrow>es. (of_int (snd entry) :: rat) / d) = of_int (sum_list (map snd es)) / d"
  by (induction es) (simp_all add: add_divide_distrib)

lemma calculateProbabilities_sum:
  assumes "getTotalTransitionsFrom t p \<noteq> 0"
  shows "sum_list (map snd (calculateProbabilities t p)) = 1"
proof -
  let ?T = "getTotalTransitionsFrom t p"
  have "sum_list (map snd (calculateProbabilities t p)) =
        (\<Sum>entry\<leftarrow>from_page p (transitions t). (of_int (snd entry) :: rat) / of_int ?T)"
    using assms
    by (simp add: calculateProbabilities_sort sum_list_sort_by_probability comp_def)
  also have "\<dots> = of_int ?T / of_int ?T"
    by (simp add: sum_list_quotients getTotalTransitionsFrom_sum)
  also have "\<dots> = 1" using assms by simp
  finally show ?thesis .
qed

lemma from_page_member:
  "entry \<in> set (from_page p m) \<longleftrightarrow> entry \<in> set m \<and> fst (fst entry) = p"
  by (auto simp: from_page_def)

lemma getTransitionProbability_entry:
  assumes ok: "table_ok t" and mem: "entry \<in> set (from_page p (transitions t))"
  shows "getTransitionProbability t p (snd (fst entry)) =
           (if getTotalTransitionsFrom t p = 0 then 0
            else of_int (snd entry) / of_int (getTotalTransitionsFrom t p))"
proof -
  from mem have e: "entry \<in> set (transitions t)" and p: "fst (fst entry) = p"
    by (simp_all add: from_page_member)
  from ok e have valid: "isValidPage (fst (fst entry))" "isValidPage (snd (fst entry))"
    by (simp_all add: table_ok_def)
  from ok have "map_keys_ok (transitions t)" by (simp add: table_ok_def)
  from map_of_keys_ok [OF this e] p
  have "map_of (transitions t) (p, snd (fst entry)) = Some (snd entry)"
    by (cases entry) auto
  with valid p show ?thesis
    by (simp add: getTransitionProbability_def Let_def)
qed

lemma getTransitionCount_entry:
  assumes ok: "table_ok t" and mem: "entry \<in> set (from_page p (transitions t))"
  shows "getTransitionCount t p (snd (fst entry)) = snd entry"
proof -
  from mem have e: "entry \<in> set (transitions t)" and p: "fst (fst entry) = p"
    by (simp_all add: from_page_member)
  from ok have "map_keys_ok (transitions t)" by (simp add: table_ok_def)
  from map_of_keys_ok [OF this e] p
  have "map_of (transitions t) (p, snd (fst entry)) = Some (snd entry)"
    by (cases entry) auto
  then show ?thesis by (simp add: getTransitionCount_def)
qed

lemma calculateProbabilities_member:
  assumes ok: "table_ok t" and mem: "(q, pr) \<in> set (calculateProbabilities t p)"
  shows "pr = getTransitionProbability t p q"
    and "pr = of_int (getTransitionCount t p q) / of_int (getTotalTransitionsFrom t p)"
proof -
  let ?T = "getTotalTransitionsFrom t p"
  from mem have T: "?T \<noteq> 0"
    by (auto simp: calculateProbabilities_sort split: if_splits)
  with mem obtain entry where e: "entry \<in> set (from_page p (transitions t))"
    and q: "q = snd (fst entry)" and pr: "pr = of_int (snd entry) / of_int ?T"
    by (auto simp: calculateProbabilities_sort set_sort_by_probability)
  from getTransitionProbability_entry [OF ok e] T q pr
  show "pr = getTransitionProbability t p q" by simp
  from getTransitionCount_entry [OF ok e] q pr
  show "pr = of_int (getTransitionCount t p q) / of_int ?T" by simp
qed

lemma reachable_probabilities_sum:
  assumes ok: "table_ok t" and T: "getTotalTransitionsFrom t p \<noteq> 0"
  shows "(\<Sum>q\<leftarrow>getReachablePages t p. getTransitionProbability t p q) = 1"
proof -
  let ?T = "getTotalTransitionsFrom t p"
  have "(\<Sum>q\<leftarrow>getReachablePages t p. getTransitionProbability t p q) =
        (\<Sum>entry\<leftarrow>from_page p (transitions t). getTransitionProbability t p (snd (fst entry)))"
    by (simp add: getReachablePages_map comp_def)
  also have "\<dots> = (\<Sum>entry\<leftarrow>from_page p (transitions t). (of_int (snd entry) :: rat) / of_int ?T)"
  proof (rule arg_cong [where f = sum_list], rule map_cong [OF refl])
    fix entry assume "entry \<in> set (from_page p (transitions t))"
    from getTransitionProbability_entry [OF ok this] T
    show "getTransitionProbability t p (snd (fst entry)) = of_int (snd entry) / of_int ?T"
      by simp
  qed
  also have "\<dots> = of_int ?T / of_int ?T"
    by (simp add: sum_list_quotients getTotalTransitionsFrom_sum)
  also have "\<dots> = 1" using T by simp
  finally show ?thesis .
qed

section \<open>The running total\<close>

lemma total_ok_init: "total_ok (PatternTable_init thr mp)"
  by (simp add: total_ok_def PatternTable_init_def)

lemma total_ok_recordTransition:
  assumes "table_ok t" "total_ok t"
  shows "total_ok (recordTransition a b t)"
proof -
  from assms(1) have "map_keys_ok (transitions t)" by (simp add: table_ok_def)
  from sum_map_assign [OF this, of "(a, b)" "getTransitionCount t a b + 1"] assms(2)
  show ?thesis
    by (simp add: recordTransition_def total_ok_def getTransitionCount_def)
qed

lemma total_ok_updatePattern:
  assumes "table_ok t" "total_ok t"
  shows "total_ok (updatePattern a b c t)"
proof -
  from assms(1) have "map_keys_ok (transitions t)" by (simp add: table_ok_def)
  from sum_map_assign [OF this, of "(a, b)" "getTransitionCount t a b + c"] assms(2)
  show ?thesis
    by (simp add: updatePattern_def total_ok_def getTransitionCount_def)
qed

lemma total_ok_recordSequence_loop:
  "table_ok t \<Longrightarrow> total_ok t \<Longrightarrow> total_ok (recordSequence_loop ps t)"
  by (induction ps t rule: recordSequence_loop.induct)
     (simp_all add: table_ok_recordTransition total_ok_recordTransition)

lemma total_ok_recordSequence: "table_ok t \<Longrightarrow> total_ok t \<Longrightarrow> total_ok (recordSequence ps t)"
  by (simp add: recordSequence_def total_ok_recordSequence_loop)

lemma sum_list_filter_split:
  "sum_list (map snd (filter (\<lambda>e. \<not> P e) es)) =
     sum_list (map snd es) - sum_list (map snd (filter P es))"
  for es :: "('a \<times> int) list"
  by (induction es) auto

lemma total_ok_compact: "total_ok t \<Longrightarrow> total_ok (compact_table mc t)"
  by (simp add: total_ok_def compact_table_def compact_loop_eq clearPredictionsCache_def
      sum_list_filter_split)

lemma totalTransitions_getPredictions:
  "totalTransitions (snd (getPredictions p t)) = totalTransitions t"
  by (simp add: getPredictions_def Let_def split: option.splits)

lemma total_ok_apply_op: "table_ok t \<Longrightarrow> total_ok t \<Longrightarrow> \<not> is_decay x \<Longrightarrow> total_ok (apply_op x t)"
proof (cases x)
  case (GetPredictions p)
  assume "total_ok t"
  then show ?thesis
    unfolding GetPredictions apply_op.simps
    by (simp add: total_ok_def transitions_getPredictions totalTransitions_getPredictions)
qed (simp_all add: total_ok_recordTransition total_ok_recordSequence total_ok_updatePattern
      total_ok_compact,
     simp_all add: total_ok_def clear_def clearPredictionsCache_def
       getPredictionsWithConfidence_def Let_def)

lemma total_ok_fold:
  "table_ok t \<Longrightarrow> total_ok t \<Longrightarrow> \<forall>x \<in> set ops. \<not> is_decay x \<Longrightarrow> total_ok (fold apply_op ops t)"
  by (induction ops arbitrary: t) (simp_all add: table_ok_apply_op total_ok_apply_op)

lemma stored_counts:
  assumes "map_keys_ok (transitions t)"
  shows "map (\<lambda>k. getTransitionCount t (fst k) (snd k)) (map fst (transitions t)) =
         map snd (transitions t)"
proof -
  have "getTransitionCount t (fst (fst e)) (snd (fst e)) = snd e"
    if "e \<in> set (transitions t)" for e
    using map_of_keys_ok [OF assms that] by (simp add: getTransitionCount_def)
  then show ?thesis by (simp add: comp_def)
qed

lemma updatePatternTable_skips_self_transition: "updatePatternTable clientId x x s = s"
  by (simp add: updatePatternTable_def)


section \<open>Decay\<close>

lemma map_of_decay:
  "map_of (map (decay_entry f) m) k = map_option (\<lambda>c. snd (decay_entry f (k, c))) (map_of m k)"
  by (induction m) (auto simp: decay_entry_def Let_def)

lemma transitions_decay:
  "0 < f \<Longrightarrow> f < 1 \<Longrightarrow> transitions (decay f t) = map (decay_entry f) (transitions t)"
  by (simp add: decay_def clearPredictionsCache_def)

lemma predictions_decay: "0 < f \<Longrightarrow> f < 1 \<Longrightarrow> predictions (decay f t) = []"
  by (simp add: decay_def clearPredictionsCache_def)

lemma config_decay:
  "confidenceThreshold (decay f t) = confidenceThreshold t"
  "maxPredictions (decay f t) = maxPredictions t"
  by (simp_all add: decay_def clearPredictionsCache_def)

lemma keys_decay: "0 < f \<Longrightarrow> f < 1 \<Longrightarrow> map fst (transitions (decay f t)) = map fst (transitions t)"
  by (simp add: transitions_decay comp_def fst_decay_entry)

lemma getTransitionCount_decay:
  assumes ok: "table_ok t" and f: "0 < f" "f < 1"
  shows "getTransitionCount (decay f t) a b =
           (if getTransitionCount t a b = 0 then 0
            else max 1 \<lfloor>double_mul (of_int (getTransitionCount t a b)) f\<rfloor>)"
proof (cases "map_of (transitions t) (a, b)")
  case None
  with f show ?thesis
    by (simp add: getTransitionCount_def transitions_decay map_of_decay)
next
  case (Some c)
  then have "((a, b), c) \<in> set (transitions t)" by (rule map_of_SomeD)
  with ok have c: "1 \<le> c" by (auto simp: table_ok_def)
  then have "snd (decay_entry f ((a, b), c)) = max 1 \<lfloor>double_mul (of_int c) f\<rfloor>"
    using decay_entry_count [of "((a, b), c)" f] f by simp
  with Some c f show ?thesis
    by (simp add: getTransitionCount_def transitions_decay map_of_decay)
qed

lemma calculateProbabilities_cong:
  "transitions t' = transitions t \<Longrightarrow> calculateProbabilities t' p = calculateProbabilities t p"
  by (simp add: calculateProbabilities_sort getTotalTransitionsFrom_sum)

lemma getPredictions_unmemoized:
  assumes "map_of (predictions t) p = None"
  shows "fst (getPredictions p t) =
           (if isValidPage p
            then select_predictions (confidenceThreshold t) (maxPredictions t)
                   (calculateProbabilities t p)
            else [])"
proof -
  have "calculateProbabilities (t\<lparr>predictionRequests := predictionRequests t + 1\<rparr>) p =
        calculateProbabilities t p"
    by (rule calculateProbabilities_cong) simp
  with assms show ?thesis by (simp add: getPredictions_def Let_def)
qed

section \<open>Memoized predictions\<close>

lemma calculateProbabilities_from_page_cong:
  "from_page p (transitions t') = from_page p (transitions t) \<Longrightarrow>
   calculateProbabilities t' p = calculateProbabilities t p"
  by (simp add: calculateProbabilities_sort getTotalTransitionsFrom_sum)

lemma from_page_map_assign_other:
  "a \<noteq> p \<Longrightarrow> from_page p (map_assign (a, b) v m) = from_page p m"
  using filter_map_assign_other [of "\<lambda>k. fst k = p" "(a, b)" v m]
  by (simp add: from_page_def)

lemma memo_ok_assign:
  assumes ok: "memo_ok t"
    and pr: "predictions t' = map_erase a (predictions t)"
    and tr: "transitions t' = map_assign (a, b) v (transitions t)"
    and cf: "confidenceThreshold t' = confidenceThreshold t" "maxPredictions t' = maxPredictions t"
  shows "memo_ok t'"
  unfolding memo_ok_def
proof (intro allI impI)
  fix p cached
  assume m: "map_of (predictions t') p = Some cached"
  then have neq: "p \<noteq> a" unfolding pr by (auto simp: map_erase_absent)
  with m have old: "map_of (predictions t) p = Some cached"
    unfolding pr by (simp add: map_of_map_erase_other)
  from neq have "from_page p (transitions t') = from_page p (transitions t)"
    unfolding tr by (simp add: from_page_map_assign_other)
  then have "calculateProbabilities t' p = calculateProbabilities t p"
    by (rule calculateProbabilities_from_page_cong)
  with ok old show "cached = select_predictions (confidenceThreshold t') (maxPredictions t')
                   (calculateProbabilities t' p)"
    unfolding cf by (simp add: memo_ok_def)
qed

lemma memo_ok_recordTransition: "memo_ok t \<Longrightarrow> memo_ok (recordTransition a b t)"
proof (cases "\<not> enableLearning t \<or> \<not> isValidPage a \<or> \<not> isValidPage b")
  case True
  assume "memo_ok t"
  with True show ?thesis by (simp add: recordTransition_def)
next
  case False
  assume ok: "memo_ok t"
  show ?thesis
    by (rule memo_ok_assign [OF ok, where a = a and b = b
          and v = "getTransitionCount t a b + 1"])
       (use False in \<open>simp_all add: recordTransition_def\<close>)
qed

lemma memo_ok_updatePattern: "memo_ok t \<Longrightarrow> memo_ok (updatePattern a b c t)"
proof (cases "\<not> enableLearning t \<or> \<not> isValidPage a \<or> \<not> isValidPage b \<or> c \<le> 0")
  case True
  assume "memo_ok t"
  with True show ?thesis by (simp add: updatePattern_def)
next
  case False
  assume ok: "memo_ok t"
  show ?thesis
    by (rule memo_ok_assign [OF ok, where a = a and b = b
          and v = "getTransitionCount t a b + c"])
       (use False in \<open>simp_all add: updatePattern_def\<close>)
qed

lemma memo_ok_recordSequence_loop: "memo_ok t \<Longrightarrow> memo_ok (recordSequence_loop ps t)"
  by (induction ps t rule: recordSequence_loop.induct) (simp_all add: memo_ok_recordTransition)

lemma memo_ok_recordSequence: "memo_ok t \<Longrightarrow> memo_ok (recordSequence ps t)"
  by (simp add: recordSequence_def memo_ok_recordSequence_loop)

lemma memo_ok_empty: "predictions t = [] \<Longrightarrow> memo_ok t"
  by (simp add: memo_ok_def)

lemma memo_ok_cong:
  "predictions t' = predictions t \<Longrightarrow> transitions t' = transitions t \<Longrightarrow>
   confidenceThreshold t' = confidenceThreshold t \<Longrightarrow> maxPredictions t' = maxPredictions t \<Longrightarrow>
   memo_ok t' = memo_ok t"
  using calculateProbabilities_cong [of t' t] by (simp add: memo_ok_def)

lemma memo_ok_getPredictions:
  assumes "memo_ok t"
  shows "memo_ok (snd (getPredictions p t))"
proof -
  let ?t1 = "t\<lparr>predictionRequests := predictionRequests t + 1\<rparr>"
  have t1: "memo_ok ?t1" using assms by (simp add: memo_ok_cong [of ?t1 t])
  show ?thesis
  proof (cases "isValidPage p \<and> map_of (predictions t) p = None")
    case False
    with t1 show ?thesis by (auto simp: getPredictions_def Let_def split: option.splits)
  next
    case True
    let ?r = "select_predictions (confidenceThreshold ?t1) (maxPredictions ?t1)
                (calculateProbabilities ?t1 p)"
    let ?t2 = "?t1\<lparr>predictions := map_assign p ?r (predictions ?t1)\<rparr>"
    have calc: "calculateProbabilities ?t2 q = calculateProbabilities ?t1 q" for q
      by (rule calculateProbabilities_cong) simp
    have "memo_ok ?t2"
      unfolding memo_ok_def
    proof (intro allI impI)
      fix q cached
      assume m: "map_of (predictions ?t2) q = Some cached"
      show "cached = select_predictions (confidenceThreshold ?t2) (maxPredictions ?t2)
                   (calculateProbabilities ?t2 q)"
      proof (cases "q = p")
        case True
        from m have "cached = ?r" by (simp add: map_of_map_assign True)
        then show ?thesis unfolding calc by (simp add: True)
      next
        case False
        from m have "map_of (predictions ?t1) q = Some cached"
          by (simp add: map_of_map_assign False)
        with t1 show ?thesis unfolding calc by (simp add: memo_ok_def)
      qed
    qed
    with True show ?thesis by (simp add: getPredictions_def Let_def)
  qed
qed

lemma memo_ok_apply_op:
  "memo_ok t \<Longrightarrow> \<not> is_config_change x \<Longrightarrow> memo_ok (apply_op x t)"
proof (cases x)
  case (Decay f)
  assume "memo_ok t"
  then show ?thesis
    unfolding Decay apply_op.simps
    by (cases "f \<le> 0 \<or> 1 \<le> f")
       (auto simp: decay_def clearPredictionsCache_def intro: memo_ok_empty)
next
  case (SetEnableLearning b)
  assume "memo_ok t"
  then show ?thesis
    unfolding SetEnableLearning apply_op.simps
    by (simp add: memo_ok_cong [of "t\<lparr>enableLearning := b\<rparr>" t])
next
  case (GetPredictionsWithConfidence p)
  assume "memo_ok t"
  then show ?thesis
    unfolding GetPredictionsWithConfidence apply_op.simps
    by (simp add: getPredictionsWithConfidence_def Let_def
        memo_ok_cong [of "t\<lparr>predictionRequests := predictionRequests t + 1\<rparr>" t])
qed (simp_all add: memo_ok_recordTransition memo_ok_recordSequence memo_ok_updatePattern
      memo_ok_getPredictions,
     simp_all add: memo_ok_empty clear_def clearPredictionsCache_def compact_table_def
       split: prod.splits)

lemma config_recordSequence_loop:
  "confidenceThreshold (recordSequence_loop ps t) = confidenceThreshold t \<and>
   maxPredictions (recordSequence_loop ps t) = maxPredictions t"
  by (induction ps t rule: recordSequence_loop.induct) (simp_all add: recordTransition_def)

lemma config_apply_op:
  "\<not> is_config_change x \<Longrightarrow>
   confidenceThreshold (apply_op x t) = confidenceThreshold t \<and>
   maxPredictions (apply_op x t) = maxPredictions t"
  by (cases x)
     (simp_all add: recordTransition_def recordSequence_def config_recordSequence_loop
        updatePattern_def getPredictions_def getPredictionsWithConfidence_def Let_def clear_def
        clearPredictionsCache_def compact_table_def config_decay
        split: option.splits prod.splits)

lemma run_keeps_memo_and_config:
  "memo_ok t \<Longrightarrow> \<forall>x \<in> set ops. \<not> is_config_change x \<Longrightarrow>
   memo_ok (fold apply_op ops t) \<and>
   confidenceThreshold (fold apply_op ops t) = confidenceThreshold t \<and>
   maxPredictions (fold apply_op ops t) = maxPredictions t"
proof (induction ops arbitrary: t)
  case Nil
  then show ?case by simp
next
  case (Cons x ops)
  from Cons.prems have x: "\<not> is_config_change x" and rest: "\<forall>y \<in> set ops. \<not> is_config_change y"
    by simp_all
  from memo_ok_apply_op [OF Cons.prems(1) x] have "memo_ok (apply_op x t)" .
  from Cons.IH [OF this rest] config_apply_op [OF x, of t] show ?case by simp
qed

lemma select_fold_take:
  "fold (\<lambda>prob result. if thr \<le> snd prob \<and> length result < n then result @ [fst prob] else result)
     probs acc =
   acc @ take (n - length acc) (map fst (filter (\<lambda>prob. thr \<le> snd prob) probs))"
proof (induction probs arbitrary: acc)
  case Nil
  show ?case by simp
next
  case (Cons x probs)
  show ?case
  proof (cases "thr \<le> snd x \<and> length acc < n")
    case True
    then obtain k where k: "n - length acc = Suc k" by (cases "n - length acc") auto
    then have "n - length (acc @ [fst x]) = k" by simp
    with True k show ?thesis by (simp add: Cons.IH)
  next
    case False
    then show ?thesis by (auto simp: Cons.IH)
  qed
qed

lemma select_predictions_take:
  "select_predictions thr mp probs =
     map fst (take (size_t_of_int mp) (filter (\<lambda>prob. thr \<le> snd prob) probs))"
  by (simp add: select_predictions_def select_fold_take take_map)

lemma size_t_of_int_le: "0 \<le> mp \<Longrightarrow> int (size_t_of_int mp) \<le> mp"
proof -
  assume "0 \<le> mp"
  then have "mp mod 2 ^ 64 \<le> mp" by (rule zmod_le_nonneg_dividend)
  moreover have "0 \<le> mp mod 2 ^ 64" by simp
  ultimately show ?thesis by (simp add: size_t_of_int_def)
qed

lemma sorted_sort_by_probability:
  "sorted_wrt (\<lambda>x y. snd y \<le> snd x) (sort_by_probability ps)"
proof -
  have "sorted (map (\<lambda>p. - snd p) (sort_key (\<lambda>p. - snd p) ps))" by (rule sorted_sort_key)
  then show ?thesis by (simp add: sort_by_probability_def sorted_wrt_map)
qed

lemma sorted_calculateProbabilities:
  "sorted_wrt (\<lambda>x y. snd y \<le> snd x) (calculateProbabilities t p)"
  by (simp add: calculateProbabilities_sort sorted_sort_by_probability)

lemma getPredictions_memo_ok:
  assumes "memo_ok t"
  shows "fst (getPredictions p t) =
           (if isValidPage p
            then select_predictions (confidenceThreshold t) (maxPredictions t)
                   (calculateProbabilities t p)
            else [])"
proof (cases "map_of (predictions t) p")
  case None
  then show ?thesis by (rule getPredictions_unmemoized)
next
  case (Some cached)
  with assms have "cached = select_predictions (confidenceThreshold t) (maxPredictions t)
                   (calculateProbabilities t p)"
    by (simp add: memo_ok_def)
  with Some show ?thesis by (simp add: getPredictions_def Let_def)
qed

lemma select_predictions_properties:
  fixes t :: PatternTable and thr :: rat and mp :: int and p :: int
  assumes ok: "table_ok t" and mp: "0 \<le> mp"
  defines "r \<equiv> select_predictions thr mp (calculateProbabilities t p)"
  shows "int (length r) \<le> mp"
    and "\<forall>q \<in> set r. thr \<le> getTransitionProbability t p q"
    and "sorted_wrt (\<lambda>a b. getTransitionProbability t p b \<le> getTransitionProbability t p a) r"
proof -
  define S where
    "S = take (size_t_of_int mp) (filter (\<lambda>prob. thr \<le> snd prob) (calculateProbabilities t p))"
  have r: "r = map fst S" by (simp add: r_def S_def select_predictions_take)
  have "length r \<le> size_t_of_int mp" by (simp add: r S_def)
  with size_t_of_int_le [OF mp] show "int (length r) \<le> mp" by simp
  have mem: "x \<in> set (calculateProbabilities t p) \<and> thr \<le> snd x" if "x \<in> set S" for x
  proof -
    from that have "x \<in> set (filter (\<lambda>prob. thr \<le> snd prob) (calculateProbabilities t p))"
      unfolding S_def by (rule in_set_takeD)
    then show ?thesis by simp
  qed
  have pr: "snd x = getTransitionProbability t p (fst x)" if "x \<in> set S" for x
  proof -
    from mem [OF that] have "(fst x, snd x) \<in> set (calculateProbabilities t p)" by simp
    then show ?thesis by (rule calculateProbabilities_member(1) [OF ok])
  qed
  show "\<forall>q \<in> set r. thr \<le> getTransitionProbability t p q"
  proof
    fix q assume "q \<in> set r"
    then obtain x where x: "x \<in> set S" and q: "q = fst x" unfolding r by auto
    from mem [OF x] have "thr \<le> snd x" by simp
    then show "thr \<le> getTransitionProbability t p q" unfolding q pr [OF x] .
  qed
  have "sorted_wrt (\<lambda>x y. snd y \<le> snd x) S"
    unfolding S_def
    by (intro sorted_wrt_take sorted_wrt_filter sorted_calculateProbabilities)
  then have "sorted_wrt (\<lambda>x y. getTransitionProbability t p (fst y)
                                \<le> getTransitionProbability t p (fst x)) S"
  proof (rule sorted_wrt_mono_rel [rotated])
    fix x y assume "x \<in> set S" "y \<in> set S" "snd y \<le> snd x"
    then show "getTransitionProbability t p (fst y) \<le> getTransitionProbability t p (fst x)"
      by (simp only: pr)
  qed
  then show "sorted_wrt (\<lambda>a b. getTransitionProbability t p b \<le> getTransitionProbability t p a) r"
    unfolding r by (simp add: sorted_wrt_map)
qed

lemma negative_max_predictions:
  "fst (getPredictions 0
          (run_ops [RecordTransition 0 1, RecordTransition 0 2]
             (PatternTable_init (1/10) (- 1)))) = [1, 2]"
  by (simp add: getPredictions_def Let_def isValidPage_def run_ops_def recordTransition_def
      PatternTable_init_def getTransitionCount_def map_erase_def calculateProbabilities_def
      getTotalTransitionsFrom_def sort_by_probability_def select_predictions_def size_t_of_int_def)

lemma negative_max_value:
  "maxPredictions (run_ops [RecordTransition 0 1, RecordTransition 0 2]
             (PatternTable_init (1/10) (- 1))) = - 1"
  by code_simp

lemma stale_predictions: "fst (getPredictions 0
          (run_ops [RecordTransition 0 1, RecordTransition 0 2, GetPredictions 0,
                    SetMaxPredictions 1] (PatternTable_init (1/10) 5))) = [1, 2]"
  by code_simp

lemma stale_max_value: "maxPredictions
          (run_ops [RecordTransition 0 1, RecordTransition 0 2, GetPredictions 0,
                    SetMaxPredictions 1] (PatternTable_init (1/10) 5)) = 1"
  by code_simp


section \<open>The response cache\<close>

lemma set_map_assign:
  "map_keys_ok m \<Longrightarrow> set (map_assign k v m) = insert (k, v) {e \<in> set m. fst e \<noteq> k}"
proof (induction m)
  case Nil
  show ?case by simp
next
  case (Cons e es)
  from Cons.prems have es: "map_keys_ok es" and lt: "\<forall>x \<in> set es. fst e < fst x"
    by (simp_all add: map_keys_ok_Cons)
  show ?case
  proof (cases "fst e < k")
    case True
    with Cons.IH [OF es] show ?thesis by auto
  next
    case False
    with lt have "\<forall>x \<in> set es. fst x \<noteq> k" by auto
    with False show ?thesis by (cases e) auto
  qed
qed

lemma set_map_erase: "set (map_erase k m) = {e \<in> set m. fst e \<noteq> k}"
  by (auto simp: map_erase_def)

lemma length_map_assign_le: "length (map_assign k v m) \<le> Suc (length m)"
  by (induction m) auto

lemma map_assign_not_Nil: "map_assign k v m \<noteq> []"
  by (cases m) auto

lemma length_map_erase_present:
  "map_keys_ok m \<Longrightarrow> e \<in> set m \<Longrightarrow> Suc (length (map_erase (fst e) m)) = length m"
proof (induction m)
  case Nil
  then show ?case by simp
next
  case (Cons x xs)
  from Cons.prems(1) have xs: "map_keys_ok xs" and lt: "\<forall>y \<in> set xs. fst x < fst y"
    by (simp_all add: map_keys_ok_Cons)
  show ?case
  proof (cases "e = x")
    case True
    from lt have "filter (\<lambda>y. fst y \<noteq> fst x) xs = xs" by (auto simp: filter_id_conv)
    with True show ?thesis by (simp add: map_erase_def)
  next
    case False
    with Cons.prems(2) have e: "e \<in> set xs" by simp
    with lt have "fst x \<noteq> fst e" by auto
    with Cons.IH [OF xs e] show ?thesis by (simp add: map_erase_def)
  qed
qed

lemma cleanup_loop_eq:
  "cleanup_loop now es msgs cur =
     (filter (\<lambda>it. \<not> isExpired now (snd it)) es,
      fold (\<lambda>it m. map_erase (fst it) m) (filter (\<lambda>it. isExpired now (snd it)) es) msgs,
      cur - int (length (filter (\<lambda>it. isExpired now (snd it)) es)))"
  by (induction es arbitrary: msgs cur) simp_all

lemma cleanup_loop_none_expired:
  "\<forall>it \<in> set es. \<not> isExpired now (snd it) \<Longrightarrow> cleanup_loop now es msgs cur = (es, msgs, cur)"
  by (induction es arbitrary: msgs cur) auto

lemma responseCache_cleanup:
  "responseCache (cleanupExpiredCache now s) =
     filter (\<lambda>it. \<not> isExpired now (snd it)) (responseCache s)"
  by (simp add: cleanupExpiredCache_def cleanup_loop_eq)

lemma currentCacheSize_cleanup:
  "currentCacheSize (cleanupExpiredCache now s) =
     currentCacheSize s - int (length (filter (\<lambda>it. isExpired now (snd it)) (responseCache s)))"
  by (simp add: cleanupExpiredCache_def cleanup_loop_eq)

lemma maxCacheSize_cleanup: "maxCacheSize (cleanupExpiredCache now s) = maxCacheSize s"
  by (simp add: cleanupExpiredCache_def cleanup_loop_eq)

lemma cleanup_none_expired:
  "\<forall>it \<in> set (responseCache s). \<not> isExpired now (snd it) \<Longrightarrow> cleanupExpiredCache now s = s"
  by (simp add: cleanupExpiredCache_def cleanup_loop_none_expired)

lemma length_filter_split:
  "length (filter (\<lambda>x. \<not> P x) xs) + length (filter P xs) = length xs"
  by (induction xs) auto

lemma find_lru_member: "find_lru l es = l \<or> find_lru l es \<in> set es"
  by (induction es arbitrary: l) (auto split: if_splits)

lemma find_lru_oldest:
  "lastAccess (snd (find_lru l es)) \<le> lastAccess (snd l) \<and>
   (\<forall>e \<in> set es. lastAccess (snd (find_lru l es)) \<le> lastAccess (snd e))"
proof (induction es arbitrary: l)
  case Nil
  show ?case by simp
next
  case (Cons it rest)
  show ?case
  proof (cases "lastAccess (snd it) < lastAccess (snd l)")
    case True
    with Cons.IH [of it] show ?thesis by auto
  next
    case False
    with Cons.IH [of l] show ?thesis by auto
  qed
qed

lemma find_lru_first_among_oldest:
  assumes "map_keys_ok (l # es)"
  shows "\<forall>e \<in> set (l # es).
           lastAccess (snd e) = lastAccess (snd (find_lru l es)) \<longrightarrow> fst (find_lru l es) \<le> fst e"
  using assms
proof (induction es arbitrary: l)
  case Nil
  show ?case by simp
next
  case (Cons it rest)
  from Cons.prems have lt: "\<forall>e \<in> set (it # rest). fst l < fst e"
    and ok: "map_keys_ok (it # rest)"
    by (simp_all add: map_keys_ok_Cons)
  show ?case
  proof (cases "lastAccess (snd it) < lastAccess (snd l)")
    case True
    let ?r = "find_lru it rest"
    from find_lru_oldest [of it rest] True
    have "lastAccess (snd ?r) < lastAccess (snd l)" by simp
    with Cons.IH [OF ok] True show ?thesis by auto
  next
    case False
    let ?r = "find_lru l rest"
    from ok lt have "map_keys_ok (l # rest)" by (simp add: map_keys_ok_Cons)
    from Cons.IH [OF this]
    have ih: "\<forall>e \<in> set (l # rest). lastAccess (snd e) = lastAccess (snd ?r) \<longrightarrow> fst ?r \<le> fst e" .
    have "fst ?r \<le> fst it" if eq: "lastAccess (snd it) = lastAccess (snd ?r)"
    proof -
      from find_lru_oldest [of l rest] False eq
      have "lastAccess (snd l) = lastAccess (snd ?r)" by simp
      with ih have "fst ?r \<le> fst l" by simp
      with lt show ?thesis by auto
    qed
    with ih False show ?thesis by auto
  qed
qed

lemma length_map_assign_present:
  "map_keys_ok m \<Longrightarrow> map_of m k = Some v' \<Longrightarrow> length (map_assign k v m) = length m"
proof (induction m)
  case Nil
  then show ?case by simp
next
  case (Cons e es)
  from Cons.prems(1) have es: "map_keys_ok es" by (simp add: map_keys_ok_Cons)
  show ?case
  proof (cases "fst e < k")
    case True
    with Cons.prems(2) have "map_of es k = Some v'" by (cases e) (auto split: if_splits)
    with Cons.IH [OF es] True show ?thesis by simp
  next
    case False
    show ?thesis
    proof (cases "fst e = k")
      case True
      with False show ?thesis by simp
    next
      case neq: False
      with False have "k < fst e" by simp
      from map_of_below_head [OF Cons.prems(1) this] Cons.prems(2) show ?thesis by simp
    qed
  qed
qed

lemma find_lru_skip_self: "find_lru first (first # rest) = find_lru first rest"
  by simp

lemma evict_victim:
  assumes ne: "responseCache s \<noteq> []" and ok: "map_keys_ok (responseCache s)"
  shows "\<exists>victim \<in> set (responseCache s).
           (\<forall>e \<in> set (responseCache s).
              lastAccess (snd victim) \<le> lastAccess (snd e) \<and>
              (lastAccess (snd e) = lastAccess (snd victim) \<longrightarrow> fst victim \<le> fst e)) \<and>
           responseCache (evictLeastRecentlyUsed s) = map_erase (fst victim) (responseCache s) \<and>
           currentCacheSize (evictLeastRecentlyUsed s) = currentCacheSize s - 1 \<and>
           maxCacheSize (evictLeastRecentlyUsed s) = maxCacheSize s"
proof -
  from ne obtain first rest where c: "responseCache s = first # rest"
    by (cases "responseCache s") auto
  let ?v = "find_lru first rest"
  from find_lru_member [of first rest] have mem: "?v \<in> set (responseCache s)"
    unfolding c by auto
  from find_lru_oldest [of first rest]
  have old: "\<forall>e \<in> set (responseCache s). lastAccess (snd ?v) \<le> lastAccess (snd e)"
    unfolding c by auto
  from find_lru_first_among_oldest [of first rest] ok
  have tie: "\<forall>e \<in> set (responseCache s).
               lastAccess (snd e) = lastAccess (snd ?v) \<longrightarrow> fst ?v \<le> fst e"
    unfolding c by blast
  have ev: "responseCache (evictLeastRecentlyUsed s) = map_erase (fst ?v) (responseCache s)"
    "currentCacheSize (evictLeastRecentlyUsed s) = currentCacheSize s - 1"
    "maxCacheSize (evictLeastRecentlyUsed s) = maxCacheSize s"
    by (simp_all add: evictLeastRecentlyUsed_def c Let_def)
  from mem old tie ev show ?thesis by blast
qed

lemma evict_empty: "responseCache s = [] \<Longrightarrow> evictLeastRecentlyUsed s = s"
  by (simp add: evictLeastRecentlyUsed_def)

lemma no_expired_filter:
  assumes "length (filter P xs) = 0"
  shows "filter (\<lambda>x. \<not> P x) xs = xs"
proof -
  from assms have "\<forall>x \<in> set xs. \<not> P x" by (simp add: filter_empty_conv)
  then show ?thesis by (simp add: filter_id_conv)
qed

lemma addToCacheWithManagement_make_room:
  "snd (addToCacheWithManagement now pageName entry s) =
     (make_room now s)\<lparr>responseCache := map_assign pageName entry (responseCache (make_room now s)),
                       currentCacheSize := currentCacheSize (make_room now s) + 1\<rparr>"
  by (simp add: addToCacheWithManagement_def make_room_def Let_def)

lemma length_cleanup:
  "int (length (responseCache (cleanupExpiredCache now s))) =
     int (length (responseCache s)) -
     int (length (filter (\<lambda>it. isExpired now (snd it)) (responseCache s)))"
  using length_filter_split [of "\<lambda>it. isExpired now (snd it)" "responseCache s"]
  by (simp add: responseCache_cleanup)

lemma length_evict:
  assumes ne: "responseCache s \<noteq> []" and ok: "map_keys_ok (responseCache s)"
  shows "int (length (responseCache (evictLeastRecentlyUsed s))) =
           int (length (responseCache s)) - 1"
proof -
  from evict_victim [OF ne ok] obtain victim where
    v: "victim \<in> set (responseCache s)"
    and e: "responseCache (evictLeastRecentlyUsed s) = map_erase (fst victim) (responseCache s)"
    by blast
  from length_map_erase_present [OF ok v] show ?thesis unfolding e by simp
qed

lemma keys_ok_evict:
  "map_keys_ok (responseCache s) \<Longrightarrow> map_keys_ok (responseCache (evictLeastRecentlyUsed s))"
  by (cases "responseCache s")
     (simp_all add: evictLeastRecentlyUsed_def Let_def map_keys_ok_map_erase)

lemma currentCacheSize_evict:
  "responseCache s \<noteq> [] \<Longrightarrow>
   currentCacheSize (evictLeastRecentlyUsed s) = currentCacheSize s - 1"
  by (cases "responseCache s") (simp_all add: evictLeastRecentlyUsed_def Let_def)

lemma maxCacheSize_evict: "maxCacheSize (evictLeastRecentlyUsed s) = maxCacheSize s"
  by (cases "responseCache s") (simp_all add: evictLeastRecentlyUsed_def Let_def)

lemma cache_inv_cleanup: "cache_inv s \<Longrightarrow> cache_inv (cleanupExpiredCache now s)"
proof -
  assume inv: "cache_inv s"
  let ?c = "cleanupExpiredCache now s"
  define k where "k = int (length (filter (\<lambda>it. isExpired now (snd it)) (responseCache s)))"
  have len: "int (length (responseCache ?c)) = int (length (responseCache s)) - k"
    unfolding k_def by (rule length_cleanup)
  have cur: "currentCacheSize ?c = currentCacheSize s - k"
    unfolding k_def by (rule currentCacheSize_cleanup)
  have ok: "map_keys_ok (responseCache ?c)"
    using inv by (simp add: responseCache_cleanup map_keys_ok_filter cache_inv_def)
  have k: "0 \<le> k" by (simp add: k_def)
  from inv have "int (length (responseCache s)) \<le> currentCacheSize s"
    and "int (length (responseCache s)) \<le> maxCacheSize s" and "1 \<le> maxCacheSize s"
    by (simp_all add: cache_inv_def)
  with len cur k have "int (length (responseCache ?c)) \<le> currentCacheSize ?c"
    and "int (length (responseCache ?c)) \<le> maxCacheSize ?c" and "1 \<le> maxCacheSize ?c"
    by (simp_all add: maxCacheSize_cleanup)
  with ok show ?thesis unfolding cache_inv_def by blast
qed

lemma cache_inv_evict: "cache_inv s \<Longrightarrow> cache_inv (evictLeastRecentlyUsed s)"
proof (cases "responseCache s = []")
  case True
  assume "cache_inv s"
  with True show ?thesis by (simp add: evict_empty)
next
  case False
  assume inv: "cache_inv s"
  then have ok: "map_keys_ok (responseCache s)" by (simp add: cache_inv_def)
  from inv length_evict [OF False ok] currentCacheSize_evict [OF False] keys_ok_evict [OF ok]
  show ?thesis by (simp add: cache_inv_def maxCacheSize_evict)
qed

lemma make_room_inv:
  assumes inv: "cache_inv s"
  shows "map_keys_ok (responseCache (make_room now s)) \<and>
         int (length (responseCache (make_room now s))) \<le> currentCacheSize (make_room now s) \<and>
         int (length (responseCache (make_room now s))) < maxCacheSize (make_room now s) \<and>
         maxCacheSize (make_room now s) = maxCacheSize s"
proof (cases "currentCacheSize s \<ge> maxCacheSize s")
  case False
  with inv show ?thesis by (simp add: make_room_def cache_inv_def)
next
  case True
  let ?s2 = "cleanupExpiredCache now s"
  from inv have inv2: "cache_inv ?s2" by (rule cache_inv_cleanup)
  then have ok2: "map_keys_ok (responseCache ?s2)" by (simp add: cache_inv_def)
  show ?thesis
  proof (cases "currentCacheSize ?s2 \<ge> maxCacheSize ?s2")
    case False
    with True inv2 show ?thesis
      by (simp add: make_room_def Let_def cache_inv_def maxCacheSize_cleanup)
  next
    case still: True
    have room: "make_room now s = evictLeastRecentlyUsed ?s2"
      using True still by (simp add: make_room_def Let_def)
    show ?thesis
    proof (cases "responseCache ?s2 = []")
      case empty: True
      with inv2 show ?thesis
        by (simp add: room evict_empty cache_inv_def maxCacheSize_cleanup)
    next
      case False
      from inv2 length_evict [OF False ok2] currentCacheSize_evict [OF False]
        keys_ok_evict [OF ok2]
      show ?thesis
        by (simp add: room cache_inv_def maxCacheSize_evict maxCacheSize_cleanup)
    qed
  qed
qed

lemma cache_inv_add:
  assumes inv: "cache_inv s"
  shows "cache_inv (snd (addToCacheWithManagement now pageName entry s))"
proof -
  let ?r = "make_room now s"
  from make_room_inv [OF inv, of now]
  have ok: "map_keys_ok (responseCache ?r)"
    and len: "int (length (responseCache ?r)) \<le> currentCacheSize ?r"
    and room: "int (length (responseCache ?r)) < maxCacheSize ?r"
    and mx: "maxCacheSize ?r = maxCacheSize s"
    by simp_all
  from length_map_assign_le [of pageName entry "responseCache ?r"] len room
  have "int (length (map_assign pageName entry (responseCache ?r))) \<le> currentCacheSize ?r + 1"
    and "int (length (map_assign pageName entry (responseCache ?r))) \<le> maxCacheSize ?r"
    by simp_all
  with ok mx inv show ?thesis
    by (simp add: addToCacheWithManagement_make_room cache_inv_def map_keys_ok_map_assign)
qed

lemma cache_inv_messages:
  "cache_inv (s\<lparr>cacheExpiryMessages := m\<rparr>) = cache_inv s"
  by (simp add: cache_inv_def)

lemma cache_inv_insert: "cache_inv s \<Longrightarrow> cache_inv (cache_insert now pageName c d s)"
  using cache_inv_add [of s now pageName "setTimestamp now (CacheEntry_init now (- 1) c d)"]
  by (simp add: cache_insert_def Let_def scheduleCacheExpiry_def cache_inv_messages
      addToCacheWithManagement_def split: prod.splits)

lemma length_erase_stored:
  assumes ok: "map_keys_ok (responseCache s)" and e: "map_of (responseCache s) k = Some e"
  shows "int (length (map_erase k (responseCache s))) = int (length (responseCache s)) - 1"
proof -
  from e have "(k, e) \<in> set (responseCache s)" by (rule map_of_SomeD)
  from length_map_erase_present [OF ok this] show ?thesis by simp
qed

lemma cache_inv_remove:
  assumes inv: "cache_inv s" and e: "map_of (responseCache s) k = Some e"
  shows "cache_inv (s\<lparr>responseCache := map_erase k (responseCache s),
                      currentCacheSize := currentCacheSize s - 1\<rparr>)"
proof -
  from inv have ok: "map_keys_ok (responseCache s)" by (simp add: cache_inv_def)
  from inv ok length_erase_stored [OF ok e] show ?thesis
    by (simp add: cache_inv_def map_keys_ok_map_erase)
qed

lemma cache_inv_erase_only:
  assumes inv: "cache_inv s" and e: "map_of (responseCache s) k = Some e"
  shows "cache_inv (s\<lparr>responseCache := map_erase k (responseCache s)\<rparr>)"
proof -
  from inv have ok: "map_keys_ok (responseCache s)" by (simp add: cache_inv_def)
  from inv ok length_erase_stored [OF ok e] show ?thesis
    by (simp add: cache_inv_def map_keys_ok_map_erase)
qed

lemma cache_inv_preCache: "cache_inv s \<Longrightarrow> cache_inv (preCachePage now page c d s)"
proof (cases "map_of (responseCache s) page")
  case None
  assume "cache_inv s"
  with None show ?thesis by (simp add: preCachePage_def cache_inv_insert)
next
  case (Some e)
  assume inv: "cache_inv s"
  from cache_inv_erase_only [OF inv Some]
  have "cache_inv (cache_insert now page c d
          (s\<lparr>responseCache := map_erase page (responseCache s)\<rparr>))"
    by (rule cache_inv_insert)
  with inv Some show ?thesis by (simp add: preCachePage_def)
qed

lemma cache_inv_lookup: "cache_inv s \<Longrightarrow> cache_inv (snd (checkResponseCache now page s))"
proof (cases "map_of (responseCache s) page")
  case None
  assume "cache_inv s"
  with None show ?thesis by (simp add: checkResponseCache_def)
next
  case (Some e)
  assume inv: "cache_inv s"
  then have ok: "map_keys_ok (responseCache s)" by (simp add: cache_inv_def)
  show ?thesis
  proof (cases "isExpired now e")
    case True
    from cache_inv_remove [OF inv Some] True Some show ?thesis
      by (simp add: checkResponseCache_def cache_inv_def)
  next
    case False
    with inv ok Some show ?thesis
      by (simp add: checkResponseCache_def cache_inv_def map_keys_ok_map_assign
          length_map_assign_present [OF ok Some])
  qed
qed

lemma cache_inv_expire: "cache_inv s \<Longrightarrow> cache_inv (handleCacheExpiry pageName s)"
proof (cases "map_of (responseCache s) pageName")
  case None
  assume "cache_inv s"
  with None show ?thesis by (simp add: handleCacheExpiry_def cache_inv_messages)
next
  case (Some e)
  assume inv: "cache_inv s"
  from cache_inv_remove [OF inv Some] Some show ?thesis
    by (simp add: handleCacheExpiry_def cache_inv_messages)
qed

lemma cache_inv_apply: "cache_inv s \<Longrightarrow> cache_inv (apply_cache_op x s)"
  by (cases x)
     (simp_all add: cache_inv_add cache_inv_insert cache_inv_preCache cache_inv_lookup
        cache_inv_cleanup cache_inv_evict cache_inv_expire)

lemma cache_inv_fold: "cache_inv s \<Longrightarrow> cache_inv (fold apply_cache_op ops s)"
  by (induction ops arbitrary: s) (simp_all add: cache_inv_apply)

lemma cache_inv_init: "1 \<le> capacity \<Longrightarrow> cache_inv (HttpServer_init capacity)"
  by (simp add: cache_inv_def HttpServer_init_def map_keys_ok_Nil)

lemma maxCacheSize_make_room: "maxCacheSize (make_room now s) = maxCacheSize s"
  by (simp add: make_room_def Let_def maxCacheSize_evict maxCacheSize_cleanup)

lemma cache_insert_make_room:
  "cache_insert now k c d s =
     scheduleCacheExpiry k
       ((make_room now s)\<lparr>responseCache :=
                            map_assign k (insertion_entry (now, k, c, d))
                              (responseCache (make_room now s)),
                          currentCacheSize := currentCacheSize (make_room now s) + 1\<rparr>)"
  by (simp add: cache_insert_def insertion_entry_def Let_def
      addToCacheWithManagement_make_room [symmetric] addToCacheWithManagement_def)

lemma responseCache_cache_insert:
  "responseCache (cache_insert now k c d s) =
     map_assign k (insertion_entry (now, k, c, d)) (responseCache (make_room now s))"
  by (simp add: cache_insert_make_room scheduleCacheExpiry_def)

lemma currentCacheSize_cache_insert:
  "currentCacheSize (cache_insert now k c d s) = currentCacheSize (make_room now s) + 1"
  by (simp add: cache_insert_make_room scheduleCacheExpiry_def)

lemma maxCacheSize_cache_insert: "maxCacheSize (cache_insert now k c d s) = maxCacheSize s"
  by (simp add: cache_insert_make_room scheduleCacheExpiry_def maxCacheSize_make_room)

lemma maxCacheSize_preCache: "maxCacheSize (preCachePage now k c d s) = maxCacheSize s"
  by (simp add: preCachePage_def maxCacheSize_cache_insert split: option.splits)

lemma maxCacheSize_apply: "maxCacheSize (apply_cache_op x s) = maxCacheSize s"
proof (cases x)
  case (Add now pageName entry)
  show ?thesis unfolding Add
    by (simp add: addToCacheWithManagement_make_room maxCacheSize_make_room)
next
  case (Insert now pageName c d)
  show ?thesis unfolding Insert by (simp add: maxCacheSize_cache_insert)
next
  case (PreCache now pageName c d)
  show ?thesis unfolding PreCache by (simp add: maxCacheSize_preCache)
next
  case (Lookup now page)
  show ?thesis unfolding Lookup
    by (simp add: checkResponseCache_def split: option.splits)
next
  case (Cleanup now)
  show ?thesis unfolding Cleanup by (simp add: maxCacheSize_cleanup)
next
  case Evict
  show ?thesis unfolding Evict by (simp add: maxCacheSize_evict)
next
  case (Expire pageName)
  show ?thesis unfolding Expire
    by (simp add: handleCacheExpiry_def Let_def split: option.splits)
qed

lemma maxCacheSize_fold: "maxCacheSize (fold apply_cache_op ops s) = maxCacheSize s"
  by (induction ops arbitrary: s) (simp_all add: maxCacheSize_apply)

lemma insertion_entry_fields:
  "content (insertion_entry (now, k, c, d)) = c"
  "ttl (insertion_entry (now, k, c, d)) = d"
  "timestamp (insertion_entry (now, k, c, d)) = now"
  "lastAccess (insertion_entry (now, k, c, d)) = now"
  by (simp_all add: insertion_entry_def setTimestamp_def CacheEntry_init_def setContent_def)

lemma isExpired_iff: "isExpired probe e = (0 < ttl e \<and> timestamp e + of_int (ttl e) \<le> probe)"
  by (auto simp: isExpired_def Let_def)

lemma isExpired_insertion_entry:
  "isExpired probe (insertion_entry (now, k, c, d)) = (0 < d \<and> now + of_int d \<le> probe)"
  by (auto simp: isExpired_def Let_def insertion_entry_fields)

lemma lookup_inserted:
  "map_of (responseCache (cache_insert now k c d s)) k = Some (insertion_entry (now, k, c, d))"
  by (simp add: responseCache_cache_insert map_of_map_assign)

lemma checkResponseCache_hit:
  assumes "map_of (responseCache s) k = Some e" and "\<not> isExpired probe e"
  shows "fst (checkResponseCache probe k s) = Some (content e)"
    and "map_of (responseCache (snd (checkResponseCache probe k s))) k =
           Some (updateAccess probe e)"
    and "currentCacheSize (snd (checkResponseCache probe k s)) = currentCacheSize s"
  using assms by (simp_all add: checkResponseCache_def map_of_map_assign)

lemma checkResponseCache_expired:
  assumes "map_of (responseCache s) k = Some e" and "isExpired probe e"
  shows "fst (checkResponseCache probe k s) = None"
    and "map_of (responseCache (snd (checkResponseCache probe k s))) k = None"
    and "currentCacheSize (snd (checkResponseCache probe k s)) = currentCacheSize s - 1"
  using assms by (simp_all add: checkResponseCache_def map_erase_absent)

section \<open>The cache of configured size 0\<close>




section \<open>Eviction order\<close>

lemma keys_ok_make_room:
  "map_keys_ok (responseCache s) \<Longrightarrow> map_keys_ok (responseCache (make_room now s))"
  by (simp add: make_room_def Let_def keys_ok_evict responseCache_cleanup map_keys_ok_filter)

lemma keys_ok_cache_insert:
  "map_keys_ok (responseCache s) \<Longrightarrow> map_keys_ok (responseCache (cache_insert now k c d s))"
  by (simp add: responseCache_cache_insert map_keys_ok_map_assign keys_ok_make_room)

lemma keys_ok_apply:
  assumes ok: "map_keys_ok (responseCache s)"
  shows "map_keys_ok (responseCache (apply_cache_op x s))"
proof (cases x)
  case (Add now pageName entry)
  from keys_ok_make_room [OF ok, of now] show ?thesis
    unfolding Add by (simp add: addToCacheWithManagement_make_room map_keys_ok_map_assign)
next
  case (Insert now pageName c d)
  from ok show ?thesis unfolding Insert by (simp add: keys_ok_cache_insert)
next
  case (PreCache now pageName c d)
  from ok show ?thesis
    unfolding PreCache
    by (simp add: preCachePage_def keys_ok_cache_insert map_keys_ok_map_erase
        split: option.splits)
next
  case (Lookup now page)
  from ok show ?thesis
    unfolding Lookup
    by (simp add: checkResponseCache_def map_keys_ok_map_assign map_keys_ok_map_erase
        split: option.splits)
next
  case (Cleanup now)
  from ok show ?thesis
    unfolding Cleanup by (simp add: responseCache_cleanup map_keys_ok_filter)
next
  case Evict
  from ok show ?thesis unfolding Evict by (simp add: keys_ok_evict)
next
  case (Expire pageName)
  from ok show ?thesis
    unfolding Expire
    by (simp add: handleCacheExpiry_def Let_def map_keys_ok_map_erase split: option.splits)
qed

lemma keys_ok_fold:
  "map_keys_ok (responseCache s) \<Longrightarrow> map_keys_ok (responseCache (fold apply_cache_op ops s))"
  by (induction ops arbitrary: s) (simp_all add: keys_ok_apply)

lemma keys_ok_run: "map_keys_ok (responseCache (run_cache ops (HttpServer_init capacity)))"
  by (simp add: run_cache_def keys_ok_fold HttpServer_init_def map_keys_ok_Nil)

lemma responseCache_insertion:
  "responseCache (apply_cache_op (insertion_op i) s) =
     map_assign (insertion_key i) (insertion_entry i)
       (responseCache (make_room (insertion_time i) s))"
  by (cases i)
     (simp add: insertion_op_def responseCache_cache_insert insertion_time_def insertion_key_def)

lemma currentCacheSize_insertion:
  "currentCacheSize (apply_cache_op (insertion_op i) s) =
     currentCacheSize (make_room (insertion_time i) s) + 1"
  by (cases i)
     (simp add: insertion_op_def currentCacheSize_cache_insert insertion_time_def)

lemma drop_head_key: "fst x = k \<Longrightarrow> {e \<in> insert x A. fst e \<noteq> k} = {e \<in> A. fst e \<noteq> k}"
  by auto

lemma stored_filter_fresh:
  assumes "k \<notin> insertion_key ` A"
  shows "{e \<in> stored ` A. fst e \<noteq> k} = stored ` A"
proof -
  have "fst (stored j) \<noteq> k" if "j \<in> A" for j
    using assms that unfolding stored_def fst_conv by blast
  then show ?thesis by blast
qed

lemma lastAccess_stored: "lastAccess (snd (stored i)) = insertion_time i"
  by (cases i) (simp add: stored_def insertion_entry_fields insertion_time_def)

lemma fst_stored: "fst (stored i) = insertion_key i"
  by (simp add: stored_def)

lemma run_cache_snoc: "run_cache (ops @ [x]) s = apply_cache_op x (run_cache ops s)"
  by (simp add: run_cache_def)

lemma fill_without_eviction:
  "distinct (map insertion_key cs) \<Longrightarrow> int (length cs) \<le> capacity \<Longrightarrow>
   set (responseCache (run_cache (map insertion_op cs) (HttpServer_init capacity))) =
     stored ` set cs \<and>
   currentCacheSize (run_cache (map insertion_op cs) (HttpServer_init capacity)) =
     int (length cs)"
proof (induction cs rule: rev_induct)
  case Nil
  show ?case by (simp add: run_cache_def HttpServer_init_def)
next
  case (snoc i cs)
  let ?s = "run_cache (map insertion_op cs) (HttpServer_init capacity)"
  from snoc.prems have d: "distinct (map insertion_key cs)"
    and fresh: "insertion_key i \<notin> insertion_key ` set cs"
    and len: "int (length cs) < capacity"
    by auto
  from snoc.IH [OF d] len have set: "set (responseCache ?s) = stored ` set cs"
    and cur: "currentCacheSize ?s = int (length cs)"
    by simp_all
  have mx: "maxCacheSize ?s = capacity"
    by (simp add: run_cache_def maxCacheSize_fold HttpServer_init_def)
  from cur len mx have room: "make_room (insertion_time i) ?s = ?s"
    by (simp add: make_room_def)
  have ok: "map_keys_ok (responseCache ?s)" by (rule keys_ok_run)
  from fresh have "{e \<in> stored ` set cs. fst e \<noteq> insertion_key i} = stored ` set cs"
    by (rule stored_filter_fresh)
  with set_map_assign [OF ok, of "insertion_key i" "insertion_entry i"] set
  have "set (map_assign (insertion_key i) (insertion_entry i) (responseCache ?s)) =
          insert (stored i) (stored ` set cs)"
    by (simp add: stored_def)
  with cur room show ?case
    by (simp add: run_cache_snoc responseCache_insertion currentCacheSize_insertion)
qed

lemma isExpired_stored:
  "isExpired probe (snd (stored i)) = isExpired probe (insertion_entry i)"
  by (simp add: stored_def)

lemma first_inserted_is_evicted:
  assumes len: "length ins = Suc N" and N: "1 \<le> N"
    and dist: "distinct (map insertion_key ins)"
    and times: "sorted_wrt (<) (map insertion_time ins)"
    and fresh: "\<forall>i \<in> set ins. \<not> isExpired (insertion_time (last ins)) (insertion_entry i)"
  shows "set (map fst (responseCache (run_cache (map insertion_op ins) (HttpServer_init (int N))))) =
           set (map insertion_key ins) - {insertion_key (hd ins)}"
proof -
  from len obtain cs l where ins: "ins = cs @ [l]" and lcs: "length cs = N"
    by (cases ins rule: rev_cases) auto
  with N obtain f mid where cs: "cs = f # mid" by (cases cs) auto
  let ?s = "run_cache (map insertion_op cs) (HttpServer_init (int N))"
  let ?now = "insertion_time l"
  from dist ins have dcs: "distinct (map insertion_key cs)" by simp
  from fill_without_eviction [OF dcs, of "int N"] lcs
  have set: "set (responseCache ?s) = stored ` set cs" and cur: "currentCacheSize ?s = int N"
    by simp_all
  have mx: "maxCacheSize ?s = int N"
    by (simp add: run_cache_def maxCacheSize_fold HttpServer_init_def)
  have ok: "map_keys_ok (responseCache ?s)" by (rule keys_ok_run)
  from fresh ins set have "\<forall>it \<in> set (responseCache ?s). \<not> isExpired ?now (snd it)"
    by (auto simp: isExpired_stored)
  then have clean: "cleanupExpiredCache ?now ?s = ?s" by (rule cleanup_none_expired)
  with cur mx have room: "make_room ?now ?s = evictLeastRecentlyUsed ?s"
    by (simp add: make_room_def)
  from set cs have ne: "responseCache ?s \<noteq> []" by auto
  from evict_victim [OF ne ok] obtain victim where
    v: "victim \<in> set (responseCache ?s)"
    and old: "\<forall>e \<in> set (responseCache ?s). lastAccess (snd victim) \<le> lastAccess (snd e)"
    and ev: "responseCache (evictLeastRecentlyUsed ?s) = map_erase (fst victim) (responseCache ?s)"
    by blast
  from v set obtain i where i: "i \<in> set cs" and vi: "victim = stored i" by blast
  from set cs have "stored f \<in> set (responseCache ?s)" by simp
  with old have "lastAccess (snd victim) \<le> lastAccess (snd (stored f))" by blast
  then have le: "insertion_time i \<le> insertion_time f"
    unfolding vi lastAccess_stored .
  from times have "sorted_wrt (<) (insertion_time f # map insertion_time (mid @ [l]))"
    unfolding ins cs by simp
  then have lt: "\<forall>j \<in> set mid. insertion_time f < insertion_time j" by simp
  have "i = f"
  proof (rule ccontr)
    assume "i \<noteq> f"
    with i have "i \<in> set mid" unfolding cs by simp
    with lt have "insertion_time f < insertion_time i" by blast
    with le show False by simp
  qed
  with vi have fv: "fst victim = insertion_key f" by (simp add: fst_stored)
  from dist have keys: "distinct (insertion_key f # map insertion_key (mid @ [l]))"
    unfolding ins cs by simp
  then have fnot: "insertion_key f \<notin> insertion_key ` set mid"
    and lnot: "insertion_key l \<notin> insertion_key ` set mid"
    and fl: "insertion_key f \<noteq> insertion_key l"
    by auto
  have img: "stored ` set cs = insert (stored f) (stored ` set mid)" by (simp add: cs)
  have after_evict: "set (responseCache (evictLeastRecentlyUsed ?s)) = stored ` set mid"
  proof -
    have "set (responseCache (evictLeastRecentlyUsed ?s)) =
            {e \<in> set (responseCache ?s). fst e \<noteq> insertion_key f}"
      unfolding ev fv by (rule set_map_erase)
    also have "\<dots> = {e \<in> insert (stored f) (stored ` set mid). fst e \<noteq> insertion_key f}"
      by (simp only: set img)
    also have "\<dots> = {e \<in> stored ` set mid. fst e \<noteq> insertion_key f}"
      by (rule drop_head_key) (rule fst_stored)
    also have "\<dots> = stored ` set mid" using fnot by (rule stored_filter_fresh)
    finally show ?thesis .
  qed
  have ok': "map_keys_ok (responseCache (evictLeastRecentlyUsed ?s))"
    using ok by (simp add: ev map_keys_ok_map_erase)
  have "set (map_assign (insertion_key l) (insertion_entry l)
              (responseCache (evictLeastRecentlyUsed ?s))) =
        insert (stored l) {e \<in> stored ` set mid. fst e \<noteq> insertion_key l}"
    using set_map_assign [OF ok', of "insertion_key l" "insertion_entry l"]
    unfolding after_evict stored_def [of l] .
  also have "{e \<in> stored ` set mid. fst e \<noteq> insertion_key l} = stored ` set mid"
    using lnot by (rule stored_filter_fresh)
  finally have final:
    "set (responseCache (run_cache (map insertion_op ins) (HttpServer_init (int N)))) =
       insert (stored l) (stored ` set mid)"
    by (simp add: ins run_cache_snoc responseCache_insertion room)
  define K where "K = insert (insertion_key l) (insertion_key ` set mid)"
  have "fst ` stored ` set mid = insertion_key ` set mid"
    by (simp add: image_image fst_stored)
  then have left: "set (map fst (responseCache
                     (run_cache (map insertion_op ins) (HttpServer_init (int N))))) = K"
    unfolding K_def set_map final image_insert fst_stored by (rule arg_cong)
  have "set (map insertion_key ins) = insert (insertion_key f) K"
    unfolding K_def ins cs by auto
  moreover have "hd ins = f" unfolding ins cs by simp
  moreover from fnot fl have "insertion_key f \<notin> K" unfolding K_def by simp
  then have "insert (insertion_key f) K - {insertion_key f} = K" by (rule Diff_insert_absorb)
  ultimately show ?thesis unfolding left by simp
qed

section \<open>Lookups after an insertion\<close>

lemma map_of_filter_keys_ok:
  assumes "map_keys_ok m" and "map_of (filter P m) k = Some e"
  shows "map_of m k = Some e"
proof -
  from assms(2) have "(k, e) \<in> set (filter P m)" by (rule map_of_SomeD)
  then have "(k, e) \<in> set m" by simp
  from map_of_keys_ok [OF assms(1) this] show ?thesis by simp
qed

lemma map_of_map_erase_keys_ok:
  "map_keys_ok m \<Longrightarrow> map_of (map_erase k' m) k = Some e \<Longrightarrow> map_of m k = Some e"
  unfolding map_erase_def by (rule map_of_filter_keys_ok)

lemma map_of_evict:
  assumes ok: "map_keys_ok (responseCache s)"
    and e: "map_of (responseCache (evictLeastRecentlyUsed s)) k = Some e"
  shows "map_of (responseCache s) k = Some e"
proof (cases "responseCache s")
  case Nil
  with e show ?thesis by (simp add: evictLeastRecentlyUsed_def)
next
  case (Cons first rest)
  then have "responseCache (evictLeastRecentlyUsed s) =
               map_erase (fst (find_lru first (first # rest))) (responseCache s)"
    by (simp add: evictLeastRecentlyUsed_def Let_def)
  with e have "map_of (map_erase (fst (find_lru first (first # rest))) (responseCache s)) k = Some e"
    by simp
  with ok show ?thesis by (rule map_of_map_erase_keys_ok)
qed

lemma map_of_cleanup:
  assumes ok: "map_keys_ok (responseCache s)"
    and e: "map_of (responseCache (cleanupExpiredCache now s)) k = Some e"
  shows "map_of (responseCache s) k = Some e"
  using ok e unfolding responseCache_cleanup by (rule map_of_filter_keys_ok)

lemma map_of_make_room:
  assumes ok: "map_keys_ok (responseCache s)"
    and e: "map_of (responseCache (make_room now s)) k = Some e"
  shows "map_of (responseCache s) k = Some e"
proof -
  let ?s2 = "cleanupExpiredCache now s"
  have ok2: "map_keys_ok (responseCache ?s2)"
    using ok by (simp add: responseCache_cleanup map_keys_ok_filter)
  have "make_room now s = s \<or> make_room now s = ?s2 \<or>
        make_room now s = evictLeastRecentlyUsed ?s2"
    by (simp add: make_room_def Let_def)
  then consider "make_room now s = s" | "make_room now s = ?s2"
    | "make_room now s = evictLeastRecentlyUsed ?s2"
    by blast
  then show ?thesis
  proof cases
    case 1
    with e show ?thesis by simp
  next
    case 2
    with e have "map_of (responseCache ?s2) k = Some e" by simp
    with ok show ?thesis by (rule map_of_cleanup)
  next
    case 3
    with e have "map_of (responseCache (evictLeastRecentlyUsed ?s2)) k = Some e" by simp
    with ok2 have "map_of (responseCache ?s2) k = Some e" by (rule map_of_evict)
    with ok show ?thesis by (rule map_of_cleanup)
  qed
qed

lemma map_of_cache_insert_other:
  assumes ok: "map_keys_ok (responseCache s)" and ne: "pageName \<noteq> k"
    and e: "map_of (responseCache (cache_insert now pageName c d s)) k = Some e"
  shows "map_of (responseCache s) k = Some e"
proof -
  from e ne have "map_of (responseCache (make_room now s)) k = Some e"
    by (simp add: responseCache_cache_insert map_of_map_assign)
  with ok show ?thesis by (rule map_of_make_room)
qed

lemma lookup_other_page:
  "page \<noteq> k \<Longrightarrow>
   map_of (responseCache (snd (checkResponseCache now page s))) k = map_of (responseCache s) k"
  by (simp add: checkResponseCache_def map_of_map_assign map_of_map_erase_other
      split: option.splits)

lemma updateAccess_fields:
  "timestamp (updateAccess now e) = timestamp e"
  "ttl (updateAccess now e) = ttl e"
  "content (updateAccess now e) = content e"
  by (simp_all add: updateAccess_def)

lemma entry_origin:
  assumes ok: "map_keys_ok (responseCache s)" and nw: "\<not> writes_page k x"
    and e': "map_of (responseCache (apply_cache_op x s)) k = Some e'"
  shows "\<exists>e. map_of (responseCache s) k = Some e \<and>
             timestamp e' = timestamp e \<and> ttl e' = ttl e \<and> content e' = content e"
proof (cases x)
  case (Add now pageName entry)
  with nw have ne: "pageName \<noteq> k" by simp
  from e' ne have "map_of (responseCache (make_room now s)) k = Some e'"
    unfolding Add by (simp add: addToCacheWithManagement_make_room map_of_map_assign)
  with ok have "map_of (responseCache s) k = Some e'" by (rule map_of_make_room)
  then show ?thesis by simp
next
  case (Insert now pageName c d)
  with nw have ne: "pageName \<noteq> k" by simp
  from e' have "map_of (responseCache (cache_insert now pageName c d s)) k = Some e'"
    unfolding Insert by simp
  from map_of_cache_insert_other [OF ok ne this] show ?thesis by simp
next
  case (PreCache now pageName c d)
  with nw have ne: "pageName \<noteq> k" by simp
  show ?thesis
  proof (cases "map_of (responseCache s) pageName")
    case None
    with e' have "map_of (responseCache (cache_insert now pageName c d s)) k = Some e'"
      unfolding PreCache by (simp add: preCachePage_def)
    from map_of_cache_insert_other [OF ok ne this] show ?thesis by simp
  next
    case (Some old)
    show ?thesis
    proof (cases "isExpired now old")
      case False
      with Some e' have "map_of (responseCache s) k = Some e'"
        unfolding PreCache by (simp add: preCachePage_def)
      then show ?thesis by simp
    next
      case True
      let ?s1 = "s\<lparr>responseCache := map_erase pageName (responseCache s)\<rparr>"
      have ok1: "map_keys_ok (responseCache ?s1)" using ok by (simp add: map_keys_ok_map_erase)
      from True Some e' have "map_of (responseCache (cache_insert now pageName c d ?s1)) k = Some e'"
        unfolding PreCache by (simp add: preCachePage_def)
      from map_of_cache_insert_other [OF ok1 ne this]
      have "map_of (map_erase pageName (responseCache s)) k = Some e'" by simp
      with ne have "map_of (responseCache s) k = Some e'" by (simp add: map_of_map_erase_other)
      then show ?thesis by simp
    qed
  qed
next
  case (Lookup now page)
  show ?thesis
  proof (cases "page = k")
    case False
    with e' have "map_of (responseCache s) k = Some e'"
      unfolding Lookup by (simp add: lookup_other_page)
    then show ?thesis by simp
  next
    case True
    show ?thesis
    proof (cases "map_of (responseCache s) k")
      case None
      with True e' show ?thesis unfolding Lookup by (simp add: checkResponseCache_def)
    next
      case (Some e)
      show ?thesis
      proof (cases "isExpired now e")
        case True
        from checkResponseCache_expired(2) [OF Some True] e' \<open>page = k\<close>
        show ?thesis unfolding Lookup by simp
      next
        case False
        from checkResponseCache_hit(2) [OF Some False] e' \<open>page = k\<close>
        have "e' = updateAccess now e" unfolding Lookup by simp
        with Some show ?thesis by (simp add: updateAccess_fields)
      qed
    qed
  qed
next
  case (Cleanup now)
  from e' have "map_of (responseCache (cleanupExpiredCache now s)) k = Some e'"
    unfolding Cleanup by simp
  with ok have "map_of (responseCache s) k = Some e'" by (rule map_of_cleanup)
  then show ?thesis by simp
next
  case Evict
  from e' have "map_of (responseCache (evictLeastRecentlyUsed s)) k = Some e'"
    unfolding Evict by simp
  with ok have "map_of (responseCache s) k = Some e'" by (rule map_of_evict)
  then show ?thesis by simp
next
  case (Expire pageName)
  have "responseCache (handleCacheExpiry pageName s) = responseCache s \<or>
        responseCache (handleCacheExpiry pageName s) = map_erase pageName (responseCache s)"
    by (simp add: handleCacheExpiry_def Let_def split: option.splits)
  then have "map_of (responseCache s) k = Some e'"
  proof
    assume "responseCache (handleCacheExpiry pageName s) = responseCache s"
    with e' show ?thesis unfolding Expire by simp
  next
    assume "responseCache (handleCacheExpiry pageName s) = map_erase pageName (responseCache s)"
    with e' have "map_of (map_erase pageName (responseCache s)) k = Some e'"
      unfolding Expire by simp
    with ok show ?thesis by (rule map_of_map_erase_keys_ok)
  qed
  then show ?thesis by simp
qed

lemma holds_insertion_apply:
  assumes ok: "map_keys_ok (responseCache s)" and h: "holds_insertion k t0 d c s"
    and nw: "\<not> writes_page k x"
  shows "holds_insertion k t0 d c (apply_cache_op x s)"
proof (cases "map_of (responseCache (apply_cache_op x s)) k")
  case None
  then show ?thesis by (simp add: holds_insertion_def)
next
  case (Some e')
  from entry_origin [OF ok nw Some] obtain e where
    e: "map_of (responseCache s) k = Some e" and
    same: "timestamp e' = timestamp e" "ttl e' = ttl e" "content e' = content e"
    by blast
  from h e have "timestamp e = t0 \<and> ttl e = d \<and> content e = c"
    by (simp add: holds_insertion_def)
  with Some same show ?thesis by (simp add: holds_insertion_def)
qed

lemma holds_insertion_fold:
  assumes "map_keys_ok (responseCache s)" and "holds_insertion k t0 d c s"
    and "\<forall>x \<in> set ops. \<not> writes_page k x"
  shows "holds_insertion k t0 d c (fold apply_cache_op ops s)"
  using assms
proof (induction ops arbitrary: s)
  case Nil
  then show ?case by simp
next
  case (Cons x ops)
  from Cons.prems have nw: "\<not> writes_page k x" and rest: "\<forall>y \<in> set ops. \<not> writes_page k y"
    by simp_all
  have ok': "map_keys_ok (responseCache (apply_cache_op x s))"
    using Cons.prems(1) by (rule keys_ok_apply)
  have h': "holds_insertion k t0 d c (apply_cache_op x s)"
    using Cons.prems(1,2) nw by (rule holds_insertion_apply)
  from Cons.IH [OF ok' h' rest] show ?case by simp
qed

lemma holds_insertion_cache_insert: "holds_insertion k t0 d c (cache_insert t0 k c d s)"
  by (simp add: holds_insertion_def lookup_inserted insertion_entry_fields)

lemma stays_stored_apply:
  assumes st: "map_of (responseCache s) k = Some e"
    and f: "timestamp e = t0" "ttl e = d"
    and x: "lookup_before_expiry k t0 d x"
  shows "\<exists>e'. map_of (responseCache (apply_cache_op x s)) k = Some e' \<and>
              timestamp e' = t0 \<and> ttl e' = d"
proof (cases x)
  case (Lookup now page)
  show ?thesis
  proof (cases "page = k")
    case False
    with st f show ?thesis unfolding Lookup by (simp add: lookup_other_page)
  next
    case True
    with x f have fresh: "\<not> isExpired now e" unfolding Lookup by (simp add: isExpired_iff)
    from checkResponseCache_hit(2) [OF st fresh] True f show ?thesis
      unfolding Lookup by (simp add: updateAccess_fields)
  qed
qed (use x in simp_all)

lemma stays_stored_fold:
  assumes "map_of (responseCache s) k = Some e" and "timestamp e = t0" and "ttl e = d"
    and "\<forall>x \<in> set ops. lookup_before_expiry k t0 d x"
  shows "map_of (responseCache (fold apply_cache_op ops s)) k \<noteq> None"
  using assms
proof (induction ops arbitrary: s e)
  case Nil
  then show ?case by simp
next
  case (Cons x ops)
  from Cons.prems have x: "lookup_before_expiry k t0 d x"
    and rest: "\<forall>y \<in> set ops. lookup_before_expiry k t0 d y"
    by simp_all
  from stays_stored_apply [OF Cons.prems(1,2,3) x] obtain e' where
    "map_of (responseCache (apply_cache_op x s)) k = Some e'" "timestamp e' = t0" "ttl e' = d"
    by blast
  from Cons.IH [OF this rest] show ?case by simp
qed

section \<open>Claims about the pattern table\<close>

text \<open>
  Claim C3. In every table reached from a freshly constructed one, for every page \<open>p\<close>
  with \<open>getTotalTransitionsFrom t p > 0\<close>, the probabilities that
  \<open>calculateProbabilities\<close> lists for the successors of \<open>p\<close> sum to 1, the values of
  \<open>getTransitionProbability\<close> over the recorded successors of \<open>p\<close> sum to 1, and each
  listed probability is the count of the transition divided by the total from \<open>p\<close>.
  Probabilities are rational numbers here, so the sum is exactly 1.
\<close>

theorem transition_probabilities_sum_to_one:
  assumes "t = run_ops ops (PatternTable_init threshold maxPred)"
    and "0 < getTotalTransitionsFrom t p"
  shows "sum_list (map snd (calculateProbabilities t p)) = 1 \<and>
         (\<Sum>q\<leftarrow>getReachablePages t p. getTransitionProbability t p q) = 1 \<and>
         (\<forall>(q, pr) \<in> set (calculateProbabilities t p).
            pr = getTransitionProbability t p q \<and>
            pr = of_int (getTransitionCount t p q) / of_int (getTotalTransitionsFrom t p))"
proof -
  from assms(1) have ok: "table_ok t" by (simp add: table_ok_run_ops)
  from assms(2) have T: "getTotalTransitionsFrom t p \<noteq> 0" by simp
  show ?thesis
    using calculateProbabilities_sum [OF T] reachable_probabilities_sum [OF ok T]
      calculateProbabilities_member [OF ok]
    by blast
qed

theorem transition_probabilities_sum_to_one_witness:
  "0 < getTotalTransitionsFrom
         (run_ops [UpdatePattern 0 1 8, RecordTransition 0 2, RecordTransition 0 2]
            (PatternTable_init (6/10) 5)) 0 \<and>
   sum_list (map snd (calculateProbabilities
         (run_ops [UpdatePattern 0 1 8, RecordTransition 0 2, RecordTransition 0 2]
            (PatternTable_init (6/10) 5)) 0)) = 1 \<and>
   calculateProbabilities
         (run_ops [UpdatePattern 0 1 8, RecordTransition 0 2, RecordTransition 0 2]
            (PatternTable_init (6/10) 5)) 0 = [(1, 4/5), (2, 1/5)]"
proof -
  let ?t = "run_ops [UpdatePattern 0 1 8, RecordTransition 0 2, RecordTransition 0 2]
              (PatternTable_init (6/10) 5)"
  have h: "0 < getTotalTransitionsFrom ?t 0" by code_simp
  have v: "calculateProbabilities ?t 0 = [(1, 4/5), (2, 1/5)]" by code_simp
  from transition_probabilities_sum_to_one [OF refl h] h v show ?thesis by blast
qed

text \<open>
  Claim C9. After any run of operations on a freshly constructed table in which
  \<open>decay\<close> does not occur (\<open>recordTransition\<close>, \<open>recordSequence\<close>, \<open>updatePattern\<close>,
  \<open>compact\<close>, \<open>clear\<close>, and also the prediction queries and the setters), the running
  total \<open>getTotalTransitions\<close> equals the sum of \<open>getTransitionCount\<close> over all stored
  transitions.
\<close>

theorem running_total_is_sum_of_counts:
  assumes "t = run_ops ops (PatternTable_init threshold maxPred)"
    and "\<forall>x \<in> set ops. \<not> is_decay x"
  shows "getTotalTransitions t =
           (\<Sum>k\<leftarrow>map fst (transitions t). getTransitionCount t (fst k) (snd k))"
proof -
  from assms(1) have ok: "table_ok t" by (simp add: table_ok_run_ops)
  then have keys: "map_keys_ok (transitions t)" by (simp add: table_ok_def)
  from assms have "total_ok t"
    by (simp add: run_ops_def total_ok_fold table_ok_init total_ok_init)
  then show ?thesis
    by (simp only: getTotalTransitions_def total_ok_def stored_counts [OF keys])
qed

theorem running_total_is_sum_of_counts_witness:
  "list_all (\<lambda>x. \<not> is_decay x)
     [RecordTransition 0 1, RecordSequence [0, 1, 2, 1], UpdatePattern 2 0 4, Compact 2,
      GetPredictions 0] \<and>
   getTotalTransitions
     (run_ops [RecordTransition 0 1, RecordSequence [0, 1, 2, 1], UpdatePattern 2 0 4,
               Compact 2, GetPredictions 0] (PatternTable_init (1/10) 5)) = 6 \<and>
   (\<Sum>k\<leftarrow>map fst (transitions
        (run_ops [RecordTransition 0 1, RecordSequence [0, 1, 2, 1], UpdatePattern 2 0 4,
                  Compact 2, GetPredictions 0] (PatternTable_init (1/10) 5))).
      getTransitionCount
        (run_ops [RecordTransition 0 1, RecordSequence [0, 1, 2, 1], UpdatePattern 2 0 4,
                  Compact 2, GetPredictions 0] (PatternTable_init (1/10) 5))
        (fst k) (snd k)) = 6"
proof -
  have h: "\<forall>x \<in> set [RecordTransition 0 1, RecordSequence [0, 1, 2, 1], UpdatePattern 2 0 4,
                       Compact 2, GetPredictions 0]. \<not> is_decay x"
    by simp
  have v: "getTotalTransitions
             (run_ops [RecordTransition 0 1, RecordSequence [0, 1, 2, 1], UpdatePattern 2 0 4,
                       Compact 2, GetPredictions 0] (PatternTable_init (1/10) 5)) = 6"
    by code_simp
  from running_total_is_sum_of_counts [OF refl h, of "1/10" 5] h v show ?thesis by simp
qed

text \<open>
  Claim C10. For every factor \<open>f\<close> with \<open>f \<le> 0\<close> or \<open>f \<ge> 1\<close>, \<open>decay f\<close> returns the
  table as it was: every transition count, the running total and the memoized
  predictions are unchanged. The function has no error branch.
\<close>

theorem decay_outside_unit_interval_is_noop:
  "factor \<le> 0 \<or> 1 \<le> factor \<Longrightarrow> decay factor t = t"
  by (simp add: decay_def)

theorem decay_outside_unit_interval_is_noop_witness:
  "((3/2 :: rat) \<le> 0 \<or> 1 \<le> (3/2 :: rat)) \<and>
   decay (3/2)
     (run_ops [UpdatePattern 0 1 3, RecordTransition 0 2, GetPredictions 0]
        (PatternTable_init (6/10) 5)) =
   run_ops [UpdatePattern 0 1 3, RecordTransition 0 2, GetPredictions 0]
     (PatternTable_init (6/10) 5) \<and>
   transitions
     (decay (3/2)
        (run_ops [UpdatePattern 0 1 3, RecordTransition 0 2, GetPredictions 0]
           (PatternTable_init (6/10) 5))) = [((0, 1), 3), ((0, 2), 1)]"
proof -
  have h: "(3/2 :: rat) \<le> 0 \<or> 1 \<le> (3/2 :: rat)" by simp
  have v: "transitions
     (run_ops [UpdatePattern 0 1 3, RecordTransition 0 2, GetPredictions 0]
        (PatternTable_init (6/10) 5)) = [((0, 1), 3), ((0, 2), 1)]"
    by code_simp
  from decay_outside_unit_interval_is_noop [OF h] h v show ?thesis by simp
qed

text \<open>
  Claim C2, at a self transition. The claim says that \<open>recordTransition x x\<close> changes
  nothing. \<open>recordTransition\<close> checks only that learning is enabled and that both pages
  are valid, so for every valid page \<open>x\<close> and every table with learning enabled it
  raises the count of the transition from \<open>x\<close> to \<open>x\<close> and the running total by 1
  and erases the memoized prediction list of \<open>x\<close>. (\<open>updatePatternTable\<close> of
  \<^verbatim>\<open>HttpServer\<close> does skip a self transition, see
  \<open>updatePatternTable_skips_self_transition\<close>.)
\<close>

theorem recordTransition_records_self_transition:
  assumes "enableLearning t" and "isValidPage x"
  shows "getTransitionCount (recordTransition x x t) x x = getTransitionCount t x x + 1 \<and>
         getTotalTransitions (recordTransition x x t) = getTotalTransitions t + 1 \<and>
         map_of (predictions (recordTransition x x t)) x = None"
  using assms
  by (simp add: recordTransition_def getTransitionCount_def getTotalTransitions_def
      map_of_map_assign map_erase_absent)

theorem recordTransition_records_self_transition_witness:
  "predictions (snd (getPredictions 2 (recordTransition 2 3 (PatternTable_init (1/10) 5)))) =
     [(2, [3])] \<and>
   getTransitionCount
     (recordTransition 2 2
        (snd (getPredictions 2 (recordTransition 2 3 (PatternTable_init (1/10) 5))))) 2 2 = 1 \<and>
   getTotalTransitions
     (recordTransition 2 2
        (snd (getPredictions 2 (recordTransition 2 3 (PatternTable_init (1/10) 5))))) = 2 \<and>
   map_of (predictions
     (recordTransition 2 2
        (snd (getPredictions 2 (recordTransition 2 3 (PatternTable_init (1/10) 5)))))) 2 = None"
proof -
  let ?t = "snd (getPredictions 2 (recordTransition 2 3 (PatternTable_init (1/10) 5)))"
  have learning: "enableLearning ?t" by code_simp
  have valid: "isValidPage 2" by (simp add: isValidPage_def)
  have before: "getTransitionCount ?t 2 2 = 0" "getTotalTransitions ?t = 1"
    "predictions ?t = [(2, [3])]"
    by code_simp+
  from recordTransition_records_self_transition [OF learning valid] before
  show ?thesis by simp
qed

text \<open>
  Claim C5 as stated fails in two ways. A table constructed with \<open>maxPredictions = -1\<close>
  returns two pages, because the negative bound is cast to \<^verbatim>\<open>size_t\<close>; and after
  \<open>setMaxPredictions 1\<close> a list of two pages memoized under the old bound 5 is still
  returned, because the setters do not invalidate the memoized lists.
\<close>

theorem getPredictions_bound_counterexample:
  "\<not> int (length (fst (getPredictions 0
          (run_ops [RecordTransition 0 1, RecordTransition 0 2]
             (PatternTable_init (1/10) (- 1))))))
      \<le> maxPredictions
          (run_ops [RecordTransition 0 1, RecordTransition 0 2] (PatternTable_init (1/10) (- 1))) \<and>
   \<not> int (length (fst (getPredictions 0
          (run_ops [RecordTransition 0 1, RecordTransition 0 2, GetPredictions 0,
                    SetMaxPredictions 1] (PatternTable_init (1/10) 5)))))
      \<le> maxPredictions
          (run_ops [RecordTransition 0 1, RecordTransition 0 2, GetPredictions 0,
                    SetMaxPredictions 1] (PatternTable_init (1/10) 5))"
  by (simp add: negative_max_predictions negative_max_value stale_predictions stale_max_value)

text \<open>
  Claim C5, amended. For every page \<open>p\<close> and every table reached from one constructed
  with \<open>maxPredictions \<ge> 0\<close> by operations other than \<open>setConfidenceThreshold\<close> and
  \<open>setMaxPredictions\<close>, \<open>getPredictions p\<close> returns at most \<open>maxPredictions\<close> pages, every
  returned page has a transition probability from \<open>p\<close> of at least \<open>confidenceThreshold\<close>,
  and the returned list is in descending order of that probability.
\<close>

theorem getPredictions_bounded_confident_sorted:
  assumes "t = run_ops ops (PatternTable_init threshold maxPred)"
    and "\<forall>x \<in> set ops. \<not> is_config_change x"
    and "0 \<le> maxPred"
  shows "int (length (fst (getPredictions p t))) \<le> maxPredictions t \<and>
         (\<forall>q \<in> set (fst (getPredictions p t)).
            confidenceThreshold t \<le> getTransitionProbability t p q) \<and>
         sorted_wrt (\<lambda>a b. getTransitionProbability t p b \<le> getTransitionProbability t p a)
           (fst (getPredictions p t))"
proof -
  from assms(1) have ok: "table_ok t" by (simp add: table_ok_run_ops)
  have "memo_ok (PatternTable_init threshold maxPred)"
    by (simp add: memo_ok_empty PatternTable_init_def)
  from run_keeps_memo_and_config [OF this assms(2)] assms(1)
  have memo: "memo_ok t" and mp: "maxPredictions t = maxPred"
    by (simp_all add: run_ops_def PatternTable_init_def)
  from assms(3) mp have nn: "0 \<le> maxPredictions t" by simp
  show ?thesis
  proof (cases "isValidPage p")
    case False
    with nn show ?thesis by (simp add: getPredictions_memo_ok [OF memo])
  next
    case True
    with select_predictions_properties [OF ok nn, where thr = "confidenceThreshold t" and p = p]
    show ?thesis by (simp add: getPredictions_memo_ok [OF memo])
  qed
qed

theorem getPredictions_bounded_confident_sorted_witness:
  "list_all (\<lambda>x. \<not> is_config_change x)
     [UpdatePattern 0 1 8, RecordTransition 0 2, RecordTransition 0 2, GetPredictions 0,
      RecordTransition 0 3] \<and>
   (0 :: int) \<le> 2 \<and>
   fst (getPredictions 0
     (run_ops [UpdatePattern 0 1 8, RecordTransition 0 2, RecordTransition 0 2, GetPredictions 0,
               RecordTransition 0 3] (PatternTable_init (1/10) 2))) = [1, 2] \<and>
   sorted_wrt (\<lambda>a b.
       getTransitionProbability
         (run_ops [UpdatePattern 0 1 8, RecordTransition 0 2, RecordTransition 0 2,
                   GetPredictions 0, RecordTransition 0 3] (PatternTable_init (1/10) 2)) 0 b
       \<le> getTransitionProbability
           (run_ops [UpdatePattern 0 1 8, RecordTransition 0 2, RecordTransition 0 2,
                     GetPredictions 0, RecordTransition 0 3] (PatternTable_init (1/10) 2)) 0 a)
     [1, 2]"
proof -
  have h: "\<forall>x \<in> set [UpdatePattern 0 1 8, RecordTransition 0 2, RecordTransition 0 2,
                       GetPredictions 0, RecordTransition 0 3]. \<not> is_config_change x"
    by simp
  have v: "fst (getPredictions 0
     (run_ops [UpdatePattern 0 1 8, RecordTransition 0 2, RecordTransition 0 2, GetPredictions 0,
               RecordTransition 0 3] (PatternTable_init (1/10) 2))) = [1, 2]"
    by code_simp
  from getPredictions_bounded_confident_sorted
         [OF refl h, where maxPred = 2 and threshold = "1/10" and p = 0] h v
  show ?thesis by simp
qed

text \<open>
  Claim C8 as stated fails: a decayed count is not always the product of the count and
  the factor rounded down. The product is a product of doubles, and it is rounded to the
  nearest double before the cast to \<^verbatim>\<open>int\<close>. The factor 0.7 is the double
  \<open>3152519739159347 / 2\<^sup>5\<^sup>2\<close>, a little less than 7/10: the count 10 becomes 7, while the
  product of 10 and this factor is less than 7 and rounds down to 6. The factor 0.29
  is a double a little less than 29/100: the count 100 becomes 28, while 100 times
  29/100 is 29.
\<close>

theorem decay_rounds_down_counterexample:
  "double_round (7/10) = 3152519739159347 / 2 ^ 52 \<and>
   getTransitionCount
     (decay (double_round (7/10)) (run_ops [UpdatePattern 0 1 10] (PatternTable_init (6/10) 5)))
     0 1 = 7 \<and>
   \<lfloor>of_int (getTransitionCount (run_ops [UpdatePattern 0 1 10] (PatternTable_init (6/10) 5)) 0 1)
      * double_round (7/10)\<rfloor> = 6 \<and>
   getTransitionCount
     (decay (double_round (29/100))
        (run_ops [UpdatePattern 0 1 100] (PatternTable_init (6/10) 5)))
     0 1 = 28 \<and>
   \<lfloor>of_int (getTransitionCount (run_ops [UpdatePattern 0 1 100] (PatternTable_init (6/10) 5)) 0 1)
      * (29/100 :: rat)\<rfloor> = 29"
  by code_simp

text \<open>
  Claim C8, amended. For every factor in the open interval from 0 to 1 and every table
  reached from a freshly constructed one, \<open>decay\<close> keeps every stored transition and
  replaces each count \<open>c\<close> by the double product of \<open>c\<close> and the factor cut off to an
  integer, or by 1 when that is 0. For a count in the range of \<^verbatim>\<open>int\<close> this is the exact
  product rounded down or that number plus 1, and never less than 1; for the factor 1/2
  it is the count halved and rounded down, or 1. \<open>decay\<close> empties the memoized
  predictions, so that the next \<open>getPredictions\<close> computes its result from the decayed
  counts. Concretely, with threshold 0.6 the counts 3 and 1 become 1 and 1 under
  \<open>decay (1/2)\<close>; \<open>getPredictions 0\<close> returned the page 1 before (probability 3/4) and
  memoized it, and returns no page after the decay (both probabilities are 1/2).
\<close>

theorem decay_truncates_double_product_and_floors_at_one:
  assumes "t = run_ops ops (PatternTable_init threshold maxPred)"
    and "0 < factor" and "factor < 1"
  shows "map fst (transitions (decay factor t)) = map fst (transitions t) \<and>
         getTransitionCount (decay factor t) a b =
           (if getTransitionCount t a b = 0 then 0
            else max 1 \<lfloor>double_mul (of_int (getTransitionCount t a b)) factor\<rfloor>) \<and>
         (getTransitionCount t a b \<noteq> 0 \<and> getTransitionCount t a b < 2 ^ 31 \<longrightarrow>
            max 1 \<lfloor>of_int (getTransitionCount t a b) * factor\<rfloor>
              \<le> getTransitionCount (decay factor t) a b \<and>
            getTransitionCount (decay factor t) a b
              \<le> max 1 (\<lfloor>of_int (getTransitionCount t a b) * factor\<rfloor> + 1)) \<and>
         (getTransitionCount t a b < 2 ^ 31 \<longrightarrow>
            getTransitionCount (decay (1/2) t) a b =
              (if getTransitionCount t a b = 0 then 0
               else max 1 (getTransitionCount t a b div 2))) \<and>
         predictions (decay factor t) = [] \<and>
         fst (getPredictions p (decay factor t)) =
           (if isValidPage p
            then select_predictions (confidenceThreshold t) (maxPredictions t)
                   (calculateProbabilities (decay factor t) p)
            else []) \<and>
         map snd (transitions
           (run_ops [UpdatePattern 0 1 3, RecordTransition 0 2, GetPredictions 0, Decay (1/2)]
              (PatternTable_init (6/10) 5))) = [1, 1] \<and>
         fst (getPredictions 0
           (run_ops [UpdatePattern 0 1 3, RecordTransition 0 2]
              (PatternTable_init (6/10) 5))) = [1] \<and>
         fst (getPredictions 0
           (run_ops [UpdatePattern 0 1 3, RecordTransition 0 2, GetPredictions 0, Decay (1/2)]
              (PatternTable_init (6/10) 5))) = []"
proof -
  from assms(1) have ok: "table_ok t" by (simp add: table_ok_run_ops)
  define c where "c = getTransitionCount t a b"
  have cnn: "0 \<le> c" unfolding c_def using ok by (rule getTransitionCount_nonneg)
  have memo: "map_of (predictions (decay factor t)) p = None"
    using assms(2,3) by (simp add: predictions_decay)
  have count: "getTransitionCount (decay factor t) a b =
                 (if c = 0 then 0 else max 1 \<lfloor>double_mul (of_int c) factor\<rfloor>)"
    unfolding c_def by (rule getTransitionCount_decay [OF ok assms(2,3)])
  have bounds: "max 1 \<lfloor>of_int c * factor\<rfloor> \<le> getTransitionCount (decay factor t) a b \<and>
                getTransitionCount (decay factor t) a b \<le> max 1 (\<lfloor>of_int c * factor\<rfloor> + 1)"
    if "c \<noteq> 0 \<and> c < 2 ^ 31"
  proof -
    from that have b: "c < 2 ^ 31" by simp
    define n where "n = \<lfloor>of_int c * factor\<rfloor>"
    define m where "m = \<lfloor>double_mul (of_int c) factor\<rfloor>"
    from floor_double_mul [OF cnn b assms(2,3)] have "n \<le> m \<and> m \<le> n + 1"
      unfolding n_def m_def .
    then have "max 1 n \<le> max 1 m \<and> max 1 m \<le> max 1 (n + 1)" by linarith
    moreover from that have "getTransitionCount (decay factor t) a b = max 1 m"
      unfolding count m_def by simp
    ultimately show ?thesis unfolding n_def by simp
  qed
  have half: "getTransitionCount (decay (1/2) t) a b = (if c = 0 then 0 else max 1 (c div 2))"
    if "c < 2 ^ 31"
  proof -
    from that have "c < 2 ^ 53" by simp
    from double_round_half [OF cnn this]
    have "double_mul (of_int c) (1/2) = of_int c / of_int 2" by (simp add: double_mul_def)
    then have "\<lfloor>double_mul (of_int c) (1/2)\<rfloor> = c div 2"
      by (simp only: floor_divide_of_int_eq)
    with getTransitionCount_decay [OF ok, of "1/2" a b] show ?thesis
      unfolding c_def by simp
  qed
  have c1: "map snd (transitions
           (run_ops [UpdatePattern 0 1 3, RecordTransition 0 2, GetPredictions 0, Decay (1/2)]
              (PatternTable_init (6/10) 5))) = [1, 1]"
    by code_simp
  have c2: "fst (getPredictions 0
           (run_ops [UpdatePattern 0 1 3, RecordTransition 0 2]
              (PatternTable_init (6/10) 5))) = [1]"
    by code_simp
  have c3: "fst (getPredictions 0
           (run_ops [UpdatePattern 0 1 3, RecordTransition 0 2, GetPredictions 0, Decay (1/2)]
              (PatternTable_init (6/10) 5))) = []"
    by code_simp
  have B: "getTransitionCount t a b \<noteq> 0 \<and> getTransitionCount t a b < 2 ^ 31 \<longrightarrow>
            max 1 \<lfloor>of_int (getTransitionCount t a b) * factor\<rfloor>
              \<le> getTransitionCount (decay factor t) a b \<and>
            getTransitionCount (decay factor t) a b
              \<le> max 1 (\<lfloor>of_int (getTransitionCount t a b) * factor\<rfloor> + 1)"
    using bounds unfolding c_def by (rule impI)
  have H: "getTransitionCount t a b < 2 ^ 31 \<longrightarrow>
            getTransitionCount (decay (1/2) t) a b =
              (if getTransitionCount t a b = 0 then 0
               else max 1 (getTransitionCount t a b div 2))"
    using half unfolding c_def by (rule impI)
  have G: "fst (getPredictions p (decay factor t)) =
           (if isValidPage p
            then select_predictions (confidenceThreshold t) (maxPredictions t)
                   (calculateProbabilities (decay factor t) p)
            else [])"
    using getPredictions_unmemoized [OF memo] by (simp only: config_decay)
  from keys_decay [OF assms(2,3), of t] count [unfolded c_def] B H
    predictions_decay [OF assms(2,3), of t] G c1 c2 c3
  show ?thesis by (intro conjI)
qed

theorem decay_truncates_double_product_and_floors_at_one_witness:
  "(0 :: rat) < 1/2 \<and> (1/2 :: rat) < 1 \<and>
   getTransitionCount
     (run_ops [UpdatePattern 0 1 3, RecordTransition 0 2, GetPredictions 0]
        (PatternTable_init (6/10) 5)) 0 1 = 3 \<and>
   getTransitionCount
     (decay (1/2)
        (run_ops [UpdatePattern 0 1 3, RecordTransition 0 2, GetPredictions 0]
           (PatternTable_init (6/10) 5))) 0 1 = 1 \<and>
   predictions
     (run_ops [UpdatePattern 0 1 3, RecordTransition 0 2, GetPredictions 0]
        (PatternTable_init (6/10) 5)) = [(0, [1])] \<and>
   predictions
     (decay (1/2)
        (run_ops [UpdatePattern 0 1 3, RecordTransition 0 2, GetPredictions 0]
           (PatternTable_init (6/10) 5))) = [] \<and>
   0 < double_round (7/10) \<and> double_round (7/10) < 1 \<and>
   getTransitionCount (run_ops [UpdatePattern 0 1 10] (PatternTable_init (6/10) 5)) 0 1 = 10 \<and>
   (10 :: int) < 2 ^ 31 \<and>
   \<lfloor>of_int (getTransitionCount (run_ops [UpdatePattern 0 1 10] (PatternTable_init (6/10) 5)) 0 1)
      * double_round (7/10)\<rfloor> = 6 \<and>
   6 \<le> getTransitionCount
          (decay (double_round (7/10))
             (run_ops [UpdatePattern 0 1 10] (PatternTable_init (6/10) 5))) 0 1 \<and>
   getTransitionCount
     (decay (double_round (7/10))
        (run_ops [UpdatePattern 0 1 10] (PatternTable_init (6/10) 5))) 0 1 \<le> 7"
proof -
  have h1: "(0 :: rat) < 1/2" and h2: "(1/2 :: rat) < 1" by simp_all
  have g1: "0 < double_round (7/10)" and g2: "double_round (7/10) < 1" by code_simp+
  have w: "getTransitionCount (run_ops [UpdatePattern 0 1 10] (PatternTable_init (6/10) 5)) 0 1 = 10"
    by code_simp
  have ex: "\<lfloor>(10 :: rat) * double_round (7/10)\<rfloor> = 6" by code_simp
  note T = decay_truncates_double_product_and_floors_at_one [OF refl g1 g2,
      where ops = "[UpdatePattern 0 1 10]" and threshold = "6/10" and maxPred = 5
        and a = 0 and b = 1 and p = 0]
  from T [THEN conjunct2, THEN conjunct2, THEN conjunct1] w ex
  have rounded: "6 \<le> getTransitionCount
          (decay (double_round (7/10))
             (run_ops [UpdatePattern 0 1 10] (PatternTable_init (6/10) 5))) 0 1 \<and>
     getTransitionCount
       (decay (double_round (7/10))
          (run_ops [UpdatePattern 0 1 10] (PatternTable_init (6/10) 5))) 0 1 \<le> 7"
    by simp
  have v: "getTransitionCount
     (run_ops [UpdatePattern 0 1 3, RecordTransition 0 2, GetPredictions 0]
        (PatternTable_init (6/10) 5)) 0 1 = 3"
    by code_simp
  have m: "predictions
     (run_ops [UpdatePattern 0 1 3, RecordTransition 0 2, GetPredictions 0]
        (PatternTable_init (6/10) 5)) = [(0, [1])]"
    by code_simp
  have fl: "\<lfloor>double_mul 3 (1/2)\<rfloor> = 1" by code_simp
  from decay_truncates_double_product_and_floors_at_one [OF refl h1 h2, of _ "6/10" 5 0 1] v m fl
  have "getTransitionCount
     (decay (1/2)
        (run_ops [UpdatePattern 0 1 3, RecordTransition 0 2, GetPredictions 0]
           (PatternTable_init (6/10) 5))) 0 1 = 1 \<and>
   predictions
     (decay (1/2)
        (run_ops [UpdatePattern 0 1 3, RecordTransition 0 2, GetPredictions 0]
           (PatternTable_init (6/10) 5))) = []"
    by simp
  with v m g1 g2 w ex rounded show ?thesis by simp
qed

section \<open>Claims about the response cache\<close>

text \<open>
  Claim C1. For every run of cache operations from the empty cache that \<open>initialize\<close>
  sets up (calls of \<open>addToCacheWithManagement\<close>, and also the steps of
  \<open>predictivePreCache\<close>, lookups, cleanups, evictions and expiry events), the number of
  entries in the cache does not exceed the configured capacity \<open>maxCacheSize\<close> after any
  operation; the same holds for every configured capacity of at least 1.
\<close>

theorem cache_size_within_capacity:
  "int (length (responseCache (run_cache ops initialize)))
     \<le> maxCacheSize (run_cache ops initialize) \<and>
   (1 \<le> capacity \<longrightarrow>
      int (length (responseCache (run_cache ops (HttpServer_init capacity))))
        \<le> maxCacheSize (run_cache ops (HttpServer_init capacity)))"
proof -
  have bound: "int (length (responseCache (run_cache ops (HttpServer_init c))))
                 \<le> maxCacheSize (run_cache ops (HttpServer_init c))"
    if "1 \<le> c" for c
  proof -
    from that have "cache_inv (run_cache ops (HttpServer_init c))"
      by (simp add: run_cache_def cache_inv_fold cache_inv_init)
    then show ?thesis by (simp add: cache_inv_def)
  qed
  from bound [of 20] bound [of capacity] show ?thesis by (simp add: initialize_def)
qed

theorem cache_size_within_capacity_witness:
  "int (length (responseCache
     (run_cache [Insert 0 ''A'' ''x'' 5, Insert 1 ''B'' ''y'' 5, Lookup 2 ''A'',
                 Insert 3 ''C'' ''z'' 5] (HttpServer_init 2)))) \<le> 2 \<and>
   map fst (responseCache
     (run_cache [Insert 0 ''A'' ''x'' 5, Insert 1 ''B'' ''y'' 5, Lookup 2 ''A'',
                 Insert 3 ''C'' ''z'' 5] (HttpServer_init 2))) = [''A'', ''C''] \<and>
   int (length (responseCache
     (run_cache [Insert 0 ''A'' ''x'' 5, Insert 1 ''B'' ''y'' 5, Lookup 2 ''A'',
                 Insert 3 ''C'' ''z'' 5] initialize))) \<le> 20"
proof -
  let ?ops = "[Insert 0 ''A'' ''x'' 5, Insert 1 ''B'' ''y'' 5, Lookup 2 ''A'',
               Insert 3 ''C'' ''z'' 5]"
  have v: "map fst (responseCache (run_cache ?ops (HttpServer_init 2))) = [''A'', ''C'']"
    by code_simp
  have m: "maxCacheSize (run_cache ?ops (HttpServer_init 2)) = 2"
    "maxCacheSize (run_cache ?ops initialize) = 20"
    by (simp_all only: run_cache_def maxCacheSize_fold)
       (simp_all add: HttpServer_init_def initialize_def)
  from cache_size_within_capacity [of ?ops 2] v m show ?thesis by simp
qed

text \<open>
  Claim C4. An insertion at time \<open>t0\<close> with the time to live \<open>d\<close> stores an entry with
  the time stamp \<open>t0\<close>, the time to live \<open>d\<close> and the inserted content. Take any state
  that the server reaches from there by cache operations that do not store the page
  again. With \<open>d > 0\<close> a lookup of the page at any time from \<open>t0 + d\<close> on is a miss, and
  the page is not in the cache after it. As long as the entry is in the cache it still
  has the time stamp \<open>t0\<close>, the time to live \<open>d\<close> and the content; then a lookup at any
  time before \<open>t0 + d\<close>, and at any time at all when \<open>d \<le> 0\<close>, is a hit that returns the
  content and leaves the entry with its time stamp and time to live, and the first
  lookup from \<open>t0 + d\<close> on removes the entry and counts the size down by 1. The entry is
  still in the cache when all that happened since the insertion are lookups of other
  pages and lookups of the page before \<open>t0 + d\<close>.
\<close>

theorem lookup_hits_until_expiry:
  assumes "s = run_cache ops (cache_insert t0 k c d (run_cache ops0 (HttpServer_init capacity)))"
    and "\<forall>x \<in> set ops. \<not> writes_page k x"
  shows "map_of (responseCache (cache_insert t0 k c d s0)) k =
           Some (insertion_entry (t0, k, c, d)) \<and>
         timestamp (insertion_entry (t0, k, c, d)) = t0 \<and>
         ttl (insertion_entry (t0, k, c, d)) = d \<and>
         content (insertion_entry (t0, k, c, d)) = c \<and>
         (0 < d \<and> t0 + of_int d \<le> probe \<longrightarrow>
            fst (checkResponseCache probe k s) = None \<and>
            map_of (responseCache (snd (checkResponseCache probe k s))) k = None) \<and>
         (map_of (responseCache s) k = Some e \<longrightarrow>
            timestamp e = t0 \<and> ttl e = d \<and> content e = c \<and>
            (\<not> (0 < d \<and> t0 + of_int d \<le> probe) \<longrightarrow>
               fst (checkResponseCache probe k s) = Some c \<and>
               map_of (responseCache (snd (checkResponseCache probe k s))) k =
                 Some (updateAccess probe e) \<and>
               timestamp (updateAccess probe e) = t0 \<and>
               ttl (updateAccess probe e) = d \<and>
               content (updateAccess probe e) = c \<and>
               currentCacheSize (snd (checkResponseCache probe k s)) = currentCacheSize s) \<and>
            (0 < d \<and> t0 + of_int d \<le> probe \<longrightarrow>
               currentCacheSize (snd (checkResponseCache probe k s)) = currentCacheSize s - 1)) \<and>
         ((\<forall>x \<in> set ops. lookup_before_expiry k t0 d x) \<longrightarrow>
            map_of (responseCache s) k \<noteq> None)"
proof -
  let ?s1 = "cache_insert t0 k c d (run_cache ops0 (HttpServer_init capacity))"
  have ok1: "map_keys_ok (responseCache ?s1)"
    by (intro keys_ok_cache_insert keys_ok_run)
  have h1: "holds_insertion k t0 d c ?s1" by (rule holds_insertion_cache_insert)
  have s: "s = fold apply_cache_op ops ?s1" using assms(1) by (simp add: run_cache_def)
  have h: "holds_insertion k t0 d c s"
    unfolding s using ok1 h1 assms(2) by (rule holds_insertion_fold)
  have fields: "timestamp e' = t0 \<and> ttl e' = d \<and> content e' = c"
    if "map_of (responseCache s) k = Some e'" for e'
    using h that by (simp add: holds_insertion_def)
  have A: "map_of (responseCache (cache_insert t0 k c d s0)) k =
             Some (insertion_entry (t0, k, c, d))"
    by (rule lookup_inserted)
  have B: "fst (checkResponseCache probe k s) = None \<and>
           map_of (responseCache (snd (checkResponseCache probe k s))) k = None"
    if late: "0 < d \<and> t0 + of_int d \<le> probe"
  proof (cases "map_of (responseCache s) k")
    case None
    then show ?thesis by (simp add: checkResponseCache_def)
  next
    case (Some e')
    from fields [OF Some] late have "isExpired probe e'" by (simp add: isExpired_iff)
    from checkResponseCache_expired(1,2) [OF Some this] show ?thesis by simp
  qed
  have C: "timestamp e = t0 \<and> ttl e = d \<and> content e = c \<and>
            (\<not> (0 < d \<and> t0 + of_int d \<le> probe) \<longrightarrow>
               fst (checkResponseCache probe k s) = Some c \<and>
               map_of (responseCache (snd (checkResponseCache probe k s))) k =
                 Some (updateAccess probe e) \<and>
               timestamp (updateAccess probe e) = t0 \<and>
               ttl (updateAccess probe e) = d \<and>
               content (updateAccess probe e) = c \<and>
               currentCacheSize (snd (checkResponseCache probe k s)) = currentCacheSize s) \<and>
            (0 < d \<and> t0 + of_int d \<le> probe \<longrightarrow>
               currentCacheSize (snd (checkResponseCache probe k s)) = currentCacheSize s - 1)"
    if st: "map_of (responseCache s) k = Some e"
  proof -
    note f = fields [OF st]
    have hit: "fst (checkResponseCache probe k s) = Some c \<and>
               map_of (responseCache (snd (checkResponseCache probe k s))) k =
                 Some (updateAccess probe e) \<and>
               timestamp (updateAccess probe e) = t0 \<and>
               ttl (updateAccess probe e) = d \<and>
               content (updateAccess probe e) = c \<and>
               currentCacheSize (snd (checkResponseCache probe k s)) = currentCacheSize s"
      if early: "\<not> (0 < d \<and> t0 + of_int d \<le> probe)"
    proof -
      from f early have fresh: "\<not> isExpired probe e" by (simp add: isExpired_iff)
      from checkResponseCache_hit [OF st fresh] f show ?thesis
        by (simp add: updateAccess_fields)
    qed
    have miss: "currentCacheSize (snd (checkResponseCache probe k s)) = currentCacheSize s - 1"
      if late: "0 < d \<and> t0 + of_int d \<le> probe"
    proof -
      from f late have "isExpired probe e" by (simp add: isExpired_iff)
      from checkResponseCache_expired(3) [OF st this] show ?thesis .
    qed
    from f hit miss show ?thesis by blast
  qed
  have D: "map_of (responseCache s) k \<noteq> None"
    if all: "\<forall>x \<in> set ops. lookup_before_expiry k t0 d x"
  proof -
    have st1: "map_of (responseCache ?s1) k = Some (insertion_entry (t0, k, c, d))"
      by (rule lookup_inserted)
    show ?thesis unfolding s
      by (rule stays_stored_fold [OF st1 _ _ all]) (simp_all add: insertion_entry_fields)
  qed
  from A B C D show ?thesis by (simp only: insertion_entry_fields simp_thms) blast
qed

theorem lookup_hits_until_expiry_witness:
  "list_all (\<lambda>x. \<not> writes_page ''X'' x) [Lookup 4 ''X'', Lookup 4 ''Y''] \<and>
   list_all (lookup_before_expiry ''X'' 0 5) [Lookup 4 ''X'', Lookup 4 ''Y''] \<and>
   fst (checkResponseCache (9/2) ''X''
     (run_cache [Lookup 4 ''X'', Lookup 4 ''Y'']
        (cache_insert 0 ''X'' ''page'' 5 (run_cache [] (HttpServer_init 20))))) = Some ''page'' \<and>
   fst (checkResponseCache 6 ''X''
     (run_cache [Lookup 4 ''X'', Lookup 4 ''Y'']
        (cache_insert 0 ''X'' ''page'' 5 (run_cache [] (HttpServer_init 20))))) = None \<and>
   map_of (responseCache (snd (checkResponseCache 6 ''X''
     (run_cache [Lookup 4 ''X'', Lookup 4 ''Y'']
        (cache_insert 0 ''X'' ''page'' 5 (run_cache [] (HttpServer_init 20))))))) ''X'' = None \<and>
   currentCacheSize (snd (checkResponseCache 6 ''X''
     (run_cache [Lookup 4 ''X'', Lookup 4 ''Y'']
        (cache_insert 0 ''X'' ''page'' 5 (run_cache [] (HttpServer_init 20)))))) = 0 \<and>
   list_all (lookup_before_expiry ''X'' 0 0) [Lookup 4 ''X'', Lookup 4 ''Y''] \<and>
   fst (checkResponseCache 6 ''X''
     (run_cache [Lookup 4 ''X'', Lookup 4 ''Y'']
        (cache_insert 0 ''X'' ''page'' 0 (run_cache [] (HttpServer_init 20))))) = Some ''page''"
proof -
  let ?ops = "[Lookup 4 ''X'', Lookup 4 ''Y'']"
  let ?s = "run_cache ?ops (cache_insert 0 ''X'' ''page'' 5 (run_cache [] (HttpServer_init 20)))"
  have nw: "\<forall>x \<in> set ?ops. \<not> writes_page ''X'' x" by simp
  have lb: "\<forall>x \<in> set ?ops. lookup_before_expiry ''X'' 0 5 x" by simp
  note T = lookup_hits_until_expiry [OF refl nw, where ?ops0.0 = "[]" and capacity = 20
      and ?t0.0 = 0 and c = "''page''" and d = 5]
  from T lb have "map_of (responseCache ?s) ''X'' \<noteq> None" by blast
  then obtain e where st: "map_of (responseCache ?s) ''X'' = Some e" by blast
  have size: "currentCacheSize ?s = 1" by code_simp
  from T [where e = e and probe = "9/2"] st
  have hit: "fst (checkResponseCache (9/2) ''X'' ?s) = Some ''page''" by simp
  from T [where e = e and probe = 6] st
  have miss: "fst (checkResponseCache 6 ''X'' ?s) = None"
    "map_of (responseCache (snd (checkResponseCache 6 ''X'' ?s))) ''X'' = None"
    "currentCacheSize (snd (checkResponseCache 6 ''X'' ?s)) = currentCacheSize ?s - 1"
    by simp_all
  let ?z = "run_cache ?ops (cache_insert 0 ''X'' ''page'' 0 (run_cache [] (HttpServer_init 20)))"
  have lz: "\<forall>x \<in> set ?ops. lookup_before_expiry ''X'' 0 0 x" by simp
  note Z = lookup_hits_until_expiry [OF refl nw, where ?ops0.0 = "[]" and capacity = 20
      and ?t0.0 = 0 and c = "''page''" and d = 0]
  from Z lz have "map_of (responseCache ?z) ''X'' \<noteq> None" by blast
  then obtain e0 where sz: "map_of (responseCache ?z) ''X'' = Some e0" by blast
  from Z [where e = e0 and probe = 6] sz
  have forever: "fst (checkResponseCache 6 ''X'' ?z) = Some ''page''" by simp
  from hit miss size forever show ?thesis by simp
qed

text \<open>
  Claim C6 as stated fails in three ways. Two entries with the same last access time 3
  are in the cache, \<open>b\<close> created at time 0 and \<open>a\<close> created at time 1: the eviction
  removes \<open>a\<close>, the first in key order, and not \<open>b\<close>, the one created first. Three
  insertions at the same time into a cache of capacity 2 evict \<open>a\<close>, the smallest key,
  and not the first inserted \<open>b\<close>. And when the first two of three insertions have
  expired at the time of the third, the cleanup removes both of them.
\<close>

theorem lru_eviction_order_counterexample:
  "map (\<lambda>it. (fst it, timestamp (snd it), lastAccess (snd it)))
     (responseCache
        (run_cache [Insert 0 ''b'' ''x'' 5, Insert 1 ''a'' ''y'' 5, Lookup 3 ''b'',
                    Lookup 3 ''a''] (HttpServer_init 2))) =
     [(''a'', 1, 3), (''b'', 0, 3)] \<and>
   map fst (responseCache
     (evictLeastRecentlyUsed
        (run_cache [Insert 0 ''b'' ''x'' 5, Insert 1 ''a'' ''y'' 5, Lookup 3 ''b'',
                    Lookup 3 ''a''] (HttpServer_init 2)))) = [''b''] \<and>
   map fst (responseCache
     (run_cache [Insert 0 ''b'' ''x'' 5, Insert 0 ''a'' ''y'' 5, Insert 0 ''c'' ''z'' 5]
        (HttpServer_init 2))) = [''b'', ''c''] \<and>
   map fst (responseCache
     (run_cache [Insert 0 ''a'' ''x'' 5, Insert 1 ''b'' ''y'' 5, Insert 7 ''c'' ''z'' 5]
        (HttpServer_init 2))) = [''c'']"
  by code_simp

text \<open>
  Claim C6, amended. In every state of the cache reached from the empty cache, the
  entry that \<open>evictLeastRecentlyUsed\<close> removes from a cache that is not empty is one with
  the smallest last access time, and among the entries with that last access time the one
  with the smallest key (the first in the iteration order of the map); all other entries
  stay. In particular, with a capacity \<open>N \<ge> 1\<close>, inserting \<open>N + 1\<close> distinct keys at
  strictly increasing times, none of them expired at the time of the last insertion and
  with no lookup in between, evicts exactly the first inserted key.
\<close>

theorem lru_eviction_order:
  assumes "s = run_cache ops (HttpServer_init capacity)"
  shows "(responseCache s \<noteq> [] \<longrightarrow>
            (\<exists>victim \<in> set (responseCache s).
               (\<forall>e \<in> set (responseCache s).
                  lastAccess (snd victim) \<le> lastAccess (snd e) \<and>
                  (lastAccess (snd e) = lastAccess (snd victim) \<longrightarrow> fst victim \<le> fst e)) \<and>
               responseCache (evictLeastRecentlyUsed s) =
                 filter (\<lambda>e. fst e \<noteq> fst victim) (responseCache s))) \<and>
         (length ins = Suc N \<and> 1 \<le> N \<and> distinct (map insertion_key ins) \<and>
          sorted_wrt (<) (map insertion_time ins) \<and>
          (\<forall>i \<in> set ins. \<not> isExpired (insertion_time (last ins)) (insertion_entry i)) \<longrightarrow>
            set (map fst (responseCache
                   (run_cache (map insertion_op ins) (HttpServer_init (int N))))) =
              set (map insertion_key ins) - {insertion_key (hd ins)})"
proof (intro conjI impI)
  assume ne: "responseCache s \<noteq> []"
  from assms have ok: "map_keys_ok (responseCache s)" by (simp add: keys_ok_run)
  from evict_victim [OF ne ok]
  show "\<exists>victim \<in> set (responseCache s).
          (\<forall>e \<in> set (responseCache s).
             lastAccess (snd victim) \<le> lastAccess (snd e) \<and>
             (lastAccess (snd e) = lastAccess (snd victim) \<longrightarrow> fst victim \<le> fst e)) \<and>
          responseCache (evictLeastRecentlyUsed s) =
            filter (\<lambda>e. fst e \<noteq> fst victim) (responseCache s)"
    unfolding map_erase_def by blast
next
  assume h: "length ins = Suc N \<and> 1 \<le> N \<and> distinct (map insertion_key ins) \<and>
          sorted_wrt (<) (map insertion_time ins) \<and>
          (\<forall>i \<in> set ins. \<not> isExpired (insertion_time (last ins)) (insertion_entry i))"
  then show "set (map fst (responseCache
                   (run_cache (map insertion_op ins) (HttpServer_init (int N))))) =
              set (map insertion_key ins) - {insertion_key (hd ins)}"
    by (intro first_inserted_is_evicted) simp_all
qed

theorem lru_eviction_order_witness:
  "map fst (responseCache
     (evictLeastRecentlyUsed
        (run_cache [Insert 0 ''A'' ''x'' 5, Insert 1 ''B'' ''y'' 5, Lookup 2 ''A'']
           (HttpServer_init 2)))) = [''A''] \<and>
   set (map fst (responseCache
     (run_cache (map insertion_op
        [(0, ''A'', ''x'', 5), (1, ''B'', ''y'', 5), (2, ''C'', ''z'', 5)])
        (HttpServer_init 2)))) = {''B'', ''C''}"
proof -
  let ?ins = "[(0, ''A'', ''x'', 5), (1, ''B'', ''y'', 5), (2, ''C'', ''z'', 5)] :: insertion list"
  have v: "map fst (responseCache
     (evictLeastRecentlyUsed
        (run_cache [Insert 0 ''A'' ''x'' 5, Insert 1 ''B'' ''y'' 5, Lookup 2 ''A'']
           (HttpServer_init 2)))) = [''A'']"
    by code_simp
  have h: "length ?ins = Suc 2 \<and> 1 \<le> (2 :: nat) \<and> distinct (map insertion_key ?ins) \<and>
          sorted_wrt (<) (map insertion_time ?ins) \<and>
          (\<forall>i \<in> set ?ins. \<not> isExpired (insertion_time (last ?ins)) (insertion_entry i))"
    by (simp add: insertion_key_def insertion_time_def isExpired_insertion_entry)
  from lru_eviction_order [OF refl, where ins = ?ins and N = 2] h
  have "set (map fst (responseCache (run_cache (map insertion_op ?ins) (HttpServer_init (int 2))))) =
          set (map insertion_key ?ins) - {insertion_key (hd ?ins)}"
    by blast
  then have "set (map fst (responseCache (run_cache (map insertion_op ?ins) (HttpServer_init 2)))) =
          {''B'', ''C''}"
    by (simp add: insertion_key_def insert_Diff_if)
  with v show ?thesis by simp
qed



end
